theory Spec2Isabelle
  imports Main "HOL-Library.Multiset"
begin

section \<open>Data model\<close>

text \<open>
  \<^verbatim>\<open>Vector<Data>\<close> owns \<^verbatim>\<open>Data* Elements\<close> and the inherited \<^verbatim>\<open>ulong size\<close>.
  The array is modelled by the list of its allocated slots, so the length of the list is
  the number of slots that \<^verbatim>\<open>new Data[n]{}\<close> allocated (\<^verbatim>\<open>nullptr\<close> is the
  array with no slot). \<^verbatim>\<open>HeapVec\<close> adds no field; \<^verbatim>\<open>PQHeap\<close> adds
  \<^verbatim>\<open>ulong capacity\<close>.

  \<^verbatim>\<open>ulong\<close> values are modelled by \<open>nat\<close>. An index or a size of an array that was
  allocated is below \<open>2 ^ 63\<close>, so \<open>2 * index + 2\<close> and \<open>size + 1\<close> do not wrap. The
  requested capacity of \<^verbatim>\<open>EnsureCapacity\<close> and the capacity it doubles are not sizes of an
  allocated array, so the doubling is written with its wrap-around at \<open>2 ^ 64\<close>.
  Allocation is taken to succeed.
  \<^verbatim>\<open>Data\<close> is a linearly ordered type whose value-initialised element \<^verbatim>\<open>Data{}\<close>
  is \<open>0\<close>. Moving a \<^verbatim>\<open>Data\<close> is modelled as copying it (as it is for the arithmetic
  types); the slot moved from is never read again before it is overwritten.
\<close>

record 'a HeapVec =
  Elements :: "'a list"
  size_m :: nat

record 'a PQHeap = "'a HeapVec" +
  capacity :: nat

datatype exn = length_error string | out_of_range string

text \<open>
  The result of a method call: it returns a value and leaves a state, or throws and leaves
  a state, or accesses a slot outside the allocated array, or reads an object of an array
  that \<^verbatim>\<open>delete[]\<close> has released (the last two are undefined behaviour in C++).
\<close>

datatype ('r, 's) outcome = Return 'r 's | Throw exn 's | OutOfBounds | UseAfterFree

text \<open>
  An argument of type \<^verbatim>\<open>const Data&\<close> or \<^verbatim>\<open>Data&&\<close>: a reference to an object that is not
  part of the queue and holds the given value, or a reference to the slot \<^verbatim>\<open>Elements[i]\<close>
  of the queue's own array as it is when the call is made (\<^verbatim>\<open>Tip()\<close> returns the reference
  to the slot \<open>0\<close>).
\<close>

datatype 'a data_ref = Object 'a | Element nat

text \<open>The names the specification gives to the three exceptions thrown.\<close>

definition EmptyCollection :: exn where
  "EmptyCollection = length_error ''Priority queue is empty''"

definition NotFound :: exn where
  "NotFound = length_error ''Value not found''"

definition IndexOutOfRange :: exn where
  "IndexOutOfRange = out_of_range ''Index out of range''"

section \<open>Heap engine (heapvec.cpp)\<close>

text \<open>\<^verbatim>\<open>std::swap(Elements[i], Elements[j])\<close>\<close>

definition swap_elems :: "'a list \<Rightarrow> nat \<Rightarrow> nat \<Rightarrow> 'a list" where
  "swap_elems xs i j = xs[i := xs ! j, j := xs ! i]"

text \<open>
  Index navigation. \<^verbatim>\<open>GetParent\<close> is only called with \<open>index > 0\<close>
  (the loop guard of \<^verbatim>\<open>HeapifyUp\<close>).
\<close>

definition GetParent :: "nat \<Rightarrow> nat" where
  "GetParent index = (index - 1) div 2"

definition GetLeftChild :: "nat \<Rightarrow> nat" where
  "GetLeftChild index = (2 * index) + 1"

definition GetRightChild :: "nat \<Rightarrow> nat" where
  "GetRightChild index = (2 * index) + 2"

text \<open>The second argument of the next two functions is the member \<^verbatim>\<open>size\<close>.\<close>

definition HasLeftChild :: "nat \<Rightarrow> nat \<Rightarrow> bool" where
  "HasLeftChild index n = (GetLeftChild index < n)"

definition HasRightChild :: "nat \<Rightarrow> nat \<Rightarrow> bool" where
  "HasRightChild index n = (GetRightChild index < n)"

text \<open>
  The loops of the heap engine work on the members \<^verbatim>\<open>Elements\<close> and \<^verbatim>\<open>size\<close>,
  passed here as the arguments \<open>xs\<close> and \<open>n\<close>.
\<close>

text \<open>The \<^verbatim>\<open>for\<close> loop of \<^verbatim>\<open>IsHeap\<close>, with its two early returns.\<close>

function IsHeap_loop :: "'a::linorder list \<Rightarrow> nat \<Rightarrow> nat \<Rightarrow> bool" where
  "IsHeap_loop xs n i =
     (if i < n then
        (if HasLeftChild i n \<and> xs ! i < xs ! GetLeftChild i then False
         else if HasRightChild i n \<and> xs ! i < xs ! GetRightChild i then False
         else IsHeap_loop xs n (i + 1))
      else True)"
  by pat_completeness auto
termination
  by (relation "measure (\<lambda>(xs, n, i). n - i)") auto

declare IsHeap_loop.simps [simp del]

definition IsHeap :: "('a::linorder, 'z) HeapVec_scheme \<Rightarrow> bool" where
  "IsHeap h = IsHeap_loop (Elements h) (size_m h) 0"

text \<open>\<^verbatim>\<open>HeapifyDown(index)\<close>: the \<^verbatim>\<open>while (HasLeftChild(index))\<close> loop.\<close>

function HeapifyDown :: "'a::linorder list \<Rightarrow> nat \<Rightarrow> nat \<Rightarrow> 'a list" where
  "HeapifyDown xs n index =
     (if HasLeftChild index n then
        (let largestChild =
               (if HasRightChild index n \<and> xs ! GetRightChild index > xs ! GetLeftChild index
                then GetRightChild index else GetLeftChild index)
         in if xs ! index \<ge> xs ! largestChild then xs
            else HeapifyDown (swap_elems xs index largestChild) n largestChild)
      else xs)"
  by pat_completeness auto
termination
  by (relation "measure (\<lambda>(xs, n, index). n - index)")
     (auto simp: HasLeftChild_def HasRightChild_def GetLeftChild_def GetRightChild_def)

declare HeapifyDown.simps [simp del]

text \<open>\<^verbatim>\<open>HeapifyUp(index)\<close>: the \<^verbatim>\<open>while (index > 0)\<close> loop.\<close>

function HeapifyUp :: "'a::linorder list \<Rightarrow> nat \<Rightarrow> 'a list" where
  "HeapifyUp xs index =
     (if index > 0 then
        (let parentIndex = GetParent index
         in if xs ! index > xs ! parentIndex
            then HeapifyUp (swap_elems xs index parentIndex) parentIndex
            else xs)
      else xs)"
  by pat_completeness auto
termination
  by (relation "measure (\<lambda>(xs, index). index)") (auto simp: GetParent_def)

declare HeapifyUp.simps [simp del]

text \<open>
  \<^verbatim>\<open>Heapify\<close>: \<^verbatim>\<open>for (long i = (size / 2) - 1; i >= 0; --i) HeapifyDown(i);\<close>
  under the guard \<^verbatim>\<open>size > 1\<close>. The loop variable is a signed integer.
\<close>

function Heapify_loop :: "'a::linorder list \<Rightarrow> nat \<Rightarrow> int \<Rightarrow> 'a list" where
  "Heapify_loop xs n i =
     (if i \<ge> 0 then Heapify_loop (HeapifyDown xs n (nat i)) n (i - 1) else xs)"
  by pat_completeness auto
termination
  by (relation "measure (\<lambda>(xs, n, i). nat (i + 1))") auto

declare Heapify_loop.simps [simp del]

definition Heapify :: "('a::linorder, 'z) HeapVec_scheme \<Rightarrow> ('a, 'z) HeapVec_scheme" where
  "Heapify h =
     (if size_m h > 1
      then h\<lparr>Elements := Heapify_loop (Elements h) (size_m h) (int (size_m h div 2) - 1)\<rparr>
      else h)"

text \<open>
  \<^verbatim>\<open>Sort\<close>: the inner \<^verbatim>\<open>while (true)\<close> loop, which sifts \<^verbatim>\<open>current\<close> down inside
  the window \<^verbatim>\<open>heapSize\<close>, and the outer \<^verbatim>\<open>for (ulong i = size - 1; i > 0; --i)\<close>.
\<close>

function Sort_sift :: "'a::linorder list \<Rightarrow> nat \<Rightarrow> nat \<Rightarrow> 'a list" where
  "Sort_sift xs heapSize current =
     (let leftChild = GetLeftChild current;
          rightChild = GetRightChild current;
          largest = (if leftChild < heapSize \<and> xs ! leftChild > xs ! current
                     then leftChild else current);
          largest = (if rightChild < heapSize \<and> xs ! rightChild > xs ! largest
                     then rightChild else largest)
      in if largest \<noteq> current
         then Sort_sift (swap_elems xs current largest) heapSize largest
         else xs)"
  by pat_completeness auto
termination
  by (relation "measure (\<lambda>(xs, heapSize, current). heapSize - current)")
     (auto simp: GetLeftChild_def GetRightChild_def Let_def split: if_splits)

declare Sort_sift.simps [simp del]

function Sort_loop :: "'a::linorder list \<Rightarrow> nat \<Rightarrow> 'a list" where
  "Sort_loop xs i =
     (if i > 0 then Sort_loop (Sort_sift (swap_elems xs 0 i) i 0) (i - 1) else xs)"
  by pat_completeness auto
termination
  by (relation "measure (\<lambda>(xs, i). i)") auto

declare Sort_loop.simps [simp del]

definition Sort :: "('a::linorder, 'z) HeapVec_scheme \<Rightarrow> ('a, 'z) HeapVec_scheme" where
  "Sort h =
     (if size_m h > 1
      then (let h1 = Heapify h
            in h1\<lparr>Elements := Sort_loop (Elements h1) (size_m h1 - 1)\<rparr>)
      else h)"

section \<open>Storage substrate (vector.cpp)\<close>

text \<open>
  The element-by-element loop \<^verbatim>\<open>for (ulong i = 0; i < n; ++i) dst[i] = src[i];\<close> of the
  copy constructor, the copy assignment and the two reallocation routines.
\<close>

function copy_loop :: "'a list \<Rightarrow> 'a list \<Rightarrow> nat \<Rightarrow> nat \<Rightarrow> 'a list" where
  "copy_loop src dst n i =
     (if i < n then copy_loop src (dst[i := src ! i]) n (i + 1) else dst)"
  by pat_completeness auto
termination
  by (relation "measure (\<lambda>(src, dst, n, i). n - i)") auto

declare copy_loop.simps [simp del]

text \<open>\<^verbatim>\<open>Vector::operator==\<close>: sizes first, then the element loop with its early return.\<close>

function eq_loop :: "'a list \<Rightarrow> 'a list \<Rightarrow> nat \<Rightarrow> nat \<Rightarrow> bool" where
  "eq_loop xs ys n i =
     (if i < n then (if xs ! i \<noteq> ys ! i then False else eq_loop xs ys n (i + 1))
      else True)"
  by pat_completeness auto
termination
  by (relation "measure (\<lambda>(xs, ys, n, i). n - i)") auto

declare eq_loop.simps [simp del]

definition Vector_eq :: "('a, 'y) HeapVec_scheme \<Rightarrow> ('a, 'z) HeapVec_scheme \<Rightarrow> bool" where
  "Vector_eq v w =
     (if size_m v \<noteq> size_m w then False
      else eq_loop (Elements v) (Elements w) (size_m v) 0)"

section \<open>Priority queue (pqheap.cpp)\<close>

subsection \<open>Construction, copy and move\<close>

text \<open>\<^verbatim>\<open>PQHeap()\<close>: the member initialisers \<^verbatim>\<open>Elements = nullptr\<close>, \<^verbatim>\<open>size = 0\<close>.\<close>

definition PQHeap_default :: "'a PQHeap" where
  "PQHeap_default = \<lparr>Elements = [], size_m = 0, capacity = 0\<rparr>"

text \<open>
  \<^verbatim>\<open>PQHeap(const ulong newSize)\<close>: \<^verbatim>\<open>Vector(newSize)\<close> allocates \<open>newSize\<close>
  value-initialised elements and sets \<^verbatim>\<open>size = newSize\<close>; then \<^verbatim>\<open>capacity = newSize\<close>.
\<close>

definition PQHeap_ulong :: "nat \<Rightarrow> ('a::zero) PQHeap" where
  "PQHeap_ulong newSize =
     \<lparr>Elements = replicate newSize 0, size_m = newSize, capacity = newSize\<rparr>"

text \<open>
  \<^verbatim>\<open>PQHeap(const TraversableContainer<Data>&)\<close>: the vector constructor stores the
  traversed elements (the list \<open>container\<close>, of length \<^verbatim>\<open>container.Size()\<close>) in order,
  \<^verbatim>\<open>HeapVec\<close> calls \<^verbatim>\<open>Heapify()\<close>, then \<^verbatim>\<open>capacity = size\<close>. The constructor from a
  \<^verbatim>\<open>MappableContainer<Data>&&\<close> builds the same queue.
\<close>

definition PQHeap_container :: "('a::linorder) list \<Rightarrow> 'a PQHeap" where
  "PQHeap_container container =
     (let h = Heapify \<lparr>Elements = container, size_m = length container\<rparr>
      in \<lparr>Elements = Elements h, size_m = size_m h, capacity = size_m h\<rparr>)"

text \<open>
  \<^verbatim>\<open>PQHeap(const PQHeap& other)\<close>: \<^verbatim>\<open>Vector(const Vector&)\<close> allocates
  \<^verbatim>\<open>new Data[size]{}\<close> and copies \<open>size\<close> elements; then \<^verbatim>\<open>capacity = other.capacity\<close>.
\<close>

definition PQHeap_copy :: "('a::zero) PQHeap \<Rightarrow> 'a PQHeap" where
  "PQHeap_copy other =
     \<lparr>Elements = copy_loop (Elements other) (replicate (size_m other) 0) (size_m other) 0,
      size_m = size_m other,
      capacity = capacity other\<rparr>"

text \<open>
  \<^verbatim>\<open>PQHeap(PQHeap&& other)\<close>: \<^verbatim>\<open>Vector(Vector&&)\<close> swaps the fresh members
  (\<^verbatim>\<open>nullptr\<close>, \<open>0\<close>) with those of \<open>other\<close>; then \<^verbatim>\<open>capacity = other.capacity;
  other.capacity = 0\<close>. The result is the pair (new object, \<open>other\<close> afterwards).
\<close>

definition PQHeap_move :: "'a PQHeap \<Rightarrow> 'a PQHeap \<times> 'a PQHeap" where
  "PQHeap_move other =
     (\<lparr>Elements = Elements other, size_m = size_m other, capacity = capacity other\<rparr>,
      \<lparr>Elements = [], size_m = 0, capacity = 0\<rparr>)"

text \<open>
  \<^verbatim>\<open>operator=(const PQHeap& other)\<close> for \<^verbatim>\<open>this != &other\<close>: a new array of
  \<^verbatim>\<open>other.size\<close> slots receives the copy; then \<^verbatim>\<open>capacity = other.capacity\<close>.
\<close>

definition assign_copy :: "('a::zero) PQHeap \<Rightarrow> 'a PQHeap \<Rightarrow> 'a PQHeap" where
  "assign_copy this other =
     this\<lparr>Elements := copy_loop (Elements other) (replicate (size_m other) 0) (size_m other) 0,
          size_m := size_m other,
          capacity := capacity other\<rparr>"

text \<open>
  \<^verbatim>\<open>operator=(PQHeap&& other)\<close> for \<^verbatim>\<open>this != &other\<close>: \<^verbatim>\<open>Vector::operator=(Vector&&)\<close>
  swaps \<^verbatim>\<open>Elements\<close> and \<^verbatim>\<open>size\<close> of the two objects; then
  \<^verbatim>\<open>capacity = other.capacity; other.capacity = 0\<close>. The result is the pair
  (\<open>this\<close> afterwards, \<open>other\<close> afterwards).
\<close>

definition assign_move :: "'a PQHeap \<Rightarrow> 'a PQHeap \<Rightarrow> 'a PQHeap \<times> 'a PQHeap" where
  "assign_move this other =
     (let this1 = this\<lparr>Elements := Elements other, size_m := size_m other\<rparr>;
          other1 = other\<lparr>Elements := Elements this, size_m := size_m this\<rparr>;
          this2 = this1\<lparr>capacity := capacity other1\<rparr>;
          other2 = other1\<lparr>capacity := 0\<rparr>
      in (this2, other2))"

text \<open>\<^verbatim>\<open>operator==\<close> and \<^verbatim>\<open>operator!=\<close> delegate to the vector comparison.\<close>

definition operator_eq :: "'a PQHeap \<Rightarrow> 'a PQHeap \<Rightarrow> bool" where
  "operator_eq this other = Vector_eq this other"

definition operator_neq :: "'a PQHeap \<Rightarrow> 'a PQHeap \<Rightarrow> bool" where
  "operator_neq this other = (\<not> operator_eq this other)"

subsection \<open>Capacity policy\<close>

text \<open>
  The loop \<^verbatim>\<open>while (newCapacity < minCapacity) newCapacity *= 2;\<close> on the 64-bit
  \<^verbatim>\<open>ulong\<close>: the product wraps around at \<open>2 ^ 64\<close>. The loop does not return once
  \<open>newCapacity\<close> is \<open>0 < minCapacity\<close> (which the doubling of \<open>2 ^ 63\<close> gives), so it is a
  partial function.
\<close>

partial_function (option) grow_loop :: "nat \<Rightarrow> nat \<Rightarrow> nat option" where
  "grow_loop newCapacity minCapacity =
     (if newCapacity < minCapacity then grow_loop ((newCapacity * 2) mod 2 ^ 64) minCapacity
      else Some newCapacity)"

declare grow_loop.simps [code]

text \<open>
  \<^verbatim>\<open>EnsureCapacity(minCapacity)\<close>. \<open>None\<close>: the doubling loop does not return.
  \<open>OutOfBounds\<close>: the loop that moves the \<open>size\<close> elements writes past the new array.
\<close>

definition EnsureCapacity :: "('a::zero) PQHeap \<Rightarrow> nat \<Rightarrow> (unit, 'a PQHeap) outcome option" where
  "EnsureCapacity q minCapacity =
     (if capacity q < minCapacity then
        (case grow_loop (if capacity q = 0 then 1 else capacity q) minCapacity of
           None \<Rightarrow> None
         | Some newCapacity \<Rightarrow>
             (if size_m q \<le> newCapacity
              then Some (Return ()
                     (q\<lparr>Elements := copy_loop (Elements q) (replicate newCapacity 0) (size_m q) 0,
                        capacity := newCapacity\<rparr>))
              else Some OutOfBounds))
      else Some (Return () q))"

text \<open>\<^verbatim>\<open>ShrinkCapacity()\<close>: the new array has at least \<open>size\<close> slots.\<close>

definition ShrinkCapacity :: "('a::zero) PQHeap \<Rightarrow> 'a PQHeap" where
  "ShrinkCapacity q =
     (if capacity q > 4 \<and> size_m q \<le> capacity q div 4 then
        (let newCapacity = capacity q div 2;
             newCapacity = (if newCapacity < size_m q then size_m q else newCapacity)
         in q\<lparr>Elements := copy_loop (Elements q) (replicate newCapacity 0) (size_m q) 0,
              capacity := newCapacity\<rparr>)
      else q)"

subsection \<open>Priority queue operations\<close>

definition Tip :: "'a PQHeap \<Rightarrow> ('a, 'a PQHeap) outcome" where
  "Tip q =
     (if size_m q = 0 then Throw (length_error ''Priority queue is empty'') q
      else Return (Elements q ! 0) q)"

definition RemoveTip :: "('a::{linorder,zero}) PQHeap \<Rightarrow> (unit, 'a PQHeap) outcome" where
  "RemoveTip q =
     (if size_m q = 0 then Throw (length_error ''Priority queue is empty'') q
      else if size_m q = 1 then Return () (ShrinkCapacity (q\<lparr>size_m := 0\<rparr>))
      else
        (let q1 = q\<lparr>Elements := (Elements q)[0 := Elements q ! (size_m q - 1)]\<rparr>;
             q2 = q1\<lparr>size_m := size_m q1 - 1\<rparr>;
             q3 = q2\<lparr>Elements := HeapifyDown (Elements q2) (size_m q2) 0\<rparr>
         in Return () (ShrinkCapacity q3)))"

definition TipNRemove :: "('a::{linorder,zero}) PQHeap \<Rightarrow> ('a, 'a PQHeap) outcome" where
  "TipNRemove q =
     (if size_m q = 0 then Throw (length_error ''Priority queue is empty'') q
      else
        (let result = Elements q ! 0
         in if size_m q = 1 then Return result (ShrinkCapacity (q\<lparr>size_m := 0\<rparr>))
            else
              (let q1 = q\<lparr>Elements := (Elements q)[0 := Elements q ! (size_m q - 1)]\<rparr>;
                   q2 = q1\<lparr>size_m := size_m q1 - 1\<rparr>;
                   q3 = q2\<lparr>Elements := HeapifyDown (Elements q2) (size_m q2) 0\<rparr>
               in Return result (ShrinkCapacity q3))))"

text \<open>
  The three statements of \<^verbatim>\<open>Insert\<close> after \<^verbatim>\<open>EnsureCapacity\<close>, for the value \<open>v\<close> that
  the argument refers to: \<^verbatim>\<open>Elements[size] = value; size++; HeapifyUp(size - 1);\<close>
\<close>

definition Insert_store :: "('a::linorder) PQHeap \<Rightarrow> 'a \<Rightarrow> 'a PQHeap" where
  "Insert_store q1 v =
     (let q2 = q1\<lparr>Elements := (Elements q1)[size_m q1 := v]\<rparr>;
          q3 = q2\<lparr>size_m := size_m q2 + 1\<rparr>
      in q3\<lparr>Elements := HeapifyUp (Elements q3) (size_m q3 - 1)\<rparr>)"

text \<open>
  \<^verbatim>\<open>Insert(const Data& value)\<close> (\<^verbatim>\<open>Insert(Data&& value)\<close> and \<^verbatim>\<open>InsertWithHeapify\<close> have
  the same body). The argument is a reference, and it is read after \<^verbatim>\<open>EnsureCapacity\<close>:
  when \<^verbatim>\<open>EnsureCapacity\<close> has reallocated (\<open>capacity < size + 1\<close>), it has released the old
  array with \<^verbatim>\<open>delete[]\<close>, and a reference to one of its slots is dangling. The write
  \<^verbatim>\<open>Elements[size] = value\<close> is inside the array only when the array has more than \<open>size\<close>
  slots.
\<close>

definition Insert ::
  "('a::{linorder,zero}) PQHeap \<Rightarrow> 'a data_ref \<Rightarrow> (unit, 'a PQHeap) outcome option" where
  "Insert q val =
     (case EnsureCapacity q (size_m q + 1) of
        None \<Rightarrow> None
      | Some OutOfBounds \<Rightarrow> Some OutOfBounds
      | Some UseAfterFree \<Rightarrow> Some UseAfterFree
      | Some (Throw e q1) \<Rightarrow> Some (Throw e q1)
      | Some (Return u q1) \<Rightarrow>
          (if size_m q1 < length (Elements q1) then
             (case val of
                Object v \<Rightarrow> Some (Return () (Insert_store q1 v))
              | Element i \<Rightarrow>
                  (if capacity q < size_m q + 1 then Some UseAfterFree
                   else if i < length (Elements q1)
                   then Some (Return () (Insert_store q1 (Elements q1 ! i)))
                   else Some OutOfBounds))
           else Some OutOfBounds))"

text \<open>The linear search of the value-based \<^verbatim>\<open>Change\<close>.\<close>

function find_loop :: "'a list \<Rightarrow> nat \<Rightarrow> 'a \<Rightarrow> nat \<Rightarrow> nat" where
  "find_loop xs n oldValue idx =
     (if idx < n \<and> \<not> (xs ! idx = oldValue) then find_loop xs n oldValue (idx + 1) else idx)"
  by pat_completeness auto
termination
  by (relation "measure (\<lambda>(xs, n, oldValue, idx). n - idx)") auto

declare find_loop.simps [simp del]

text \<open>
  \<^verbatim>\<open>Change(const Data& oldValue, const Data& newValue)\<close>; the version taking
  \<^verbatim>\<open>Data&& newValue\<close> compares the same two values.
\<close>

definition Change_value :: "('a::linorder) PQHeap \<Rightarrow> 'a \<Rightarrow> 'a \<Rightarrow> (unit, 'a PQHeap) outcome" where
  "Change_value q oldValue newValue =
     (let idx = find_loop (Elements q) (size_m q) oldValue 0
      in if idx = size_m q then Throw (length_error ''Value not found'') q
         else
           (let oldData = Elements q ! idx;
                q1 = q\<lparr>Elements := (Elements q)[idx := newValue]\<rparr>
            in if newValue > oldData
               then Return () (q1\<lparr>Elements := HeapifyUp (Elements q1) idx\<rparr>)
               else if newValue < oldData
               then Return () (q1\<lparr>Elements := HeapifyDown (Elements q1) (size_m q1) idx\<rparr>)
               else Return () q1))"

text \<open>\<^verbatim>\<open>Change(const ulong& idx, const Data& newValue)\<close>, and its move version.\<close>

definition Change_index :: "('a::linorder) PQHeap \<Rightarrow> nat \<Rightarrow> 'a \<Rightarrow> (unit, 'a PQHeap) outcome" where
  "Change_index q idx newValue =
     (if idx \<ge> size_m q then Throw (out_of_range ''Index out of range'') q
      else
        (let oldData = Elements q ! idx;
             q1 = q\<lparr>Elements := (Elements q)[idx := newValue]\<rparr>
         in if newValue > oldData
            then Return () (q1\<lparr>Elements := HeapifyUp (Elements q1) idx\<rparr>)
            else if newValue < oldData
            then Return () (q1\<lparr>Elements := HeapifyDown (Elements q1) (size_m q1) idx\<rparr>)
            else Return () q1))"

section \<open>Drivers and predicates used by the properties\<close>

text \<open>
  The client loop \<^verbatim>\<open>while (!pq.Empty()) out.push_back(pq.TipNRemove());\<close> that empties a
  queue and records what it extracts.
\<close>

function drain :: "('a::{linorder,zero}) PQHeap \<Rightarrow> 'a list" where
  "drain q =
     (if size_m q = 0 then []
      else (case TipNRemove q of
              Return x q' \<Rightarrow> x # drain q'
            | Throw e q' \<Rightarrow> []
            | OutOfBounds \<Rightarrow> []
            | UseAfterFree \<Rightarrow> []))"
  by pat_completeness auto
termination
  by (relation "measure size_m")
     (auto simp: TipNRemove_def ShrinkCapacity_def Let_def split: if_splits)

declare drain.simps [simp del]

text \<open>
  A call of the public mutating surface, and the state it leaves: the state is unchanged
  by a call that throws, and there is no state after undefined behaviour or after a call
  that does not return.
\<close>

datatype 'a pq_op =
    Op_Insert "'a data_ref"
  | Op_RemoveTip
  | Op_TipNRemove
  | Op_Change_value 'a 'a
  | Op_Change_index nat 'a
  | Op_Heapify

fun state_after :: "('r, 's) outcome \<Rightarrow> 's option" where
  "state_after (Return r s) = Some s"
| "state_after (Throw e s) = Some s"
| "state_after OutOfBounds = None"
| "state_after UseAfterFree = None"

fun apply_op :: "('a::{linorder,zero}) PQHeap \<Rightarrow> 'a pq_op \<Rightarrow> 'a PQHeap option" where
  "apply_op q (Op_Insert v) = (case Insert q v of None \<Rightarrow> None | Some out \<Rightarrow> state_after out)"
| "apply_op q Op_RemoveTip = state_after (RemoveTip q)"
| "apply_op q Op_TipNRemove = state_after (TipNRemove q)"
| "apply_op q (Op_Change_value old new) = state_after (Change_value q old new)"
| "apply_op q (Op_Change_index idx new) = state_after (Change_index q idx new)"
| "apply_op q Op_Heapify = Some (Heapify q)"

text \<open>The states after each call of a sequence of calls, in order.\<close>

fun run_ops :: "('a::{linorder,zero}) PQHeap \<Rightarrow> 'a pq_op list \<Rightarrow> 'a PQHeap list option" where
  "run_ops q [] = Some []"
| "run_ops q (c # cs) =
     (case apply_op q c of
        None \<Rightarrow> None
      | Some q' \<Rightarrow> (case run_ops q' cs of None \<Rightarrow> None | Some qs \<Rightarrow> Some (q' # qs)))"

text \<open>
  A call whose argument does not refer into the queue's own array: every call but an
  \<^verbatim>\<open>Insert\<close> of a reference to one of the queue's slots.
\<close>

fun no_alias :: "'a pq_op \<Rightarrow> bool" where
  "no_alias (Op_Insert (Element i)) = False"
| "no_alias c = True"

text \<open>
  A valid state: the array has room for \<open>capacity\<close> elements and the \<open>size\<close> live ones
  are among them.
\<close>

definition pq_valid :: "'a PQHeap \<Rightarrow> bool" where
  "pq_valid q \<longleftrightarrow> size_m q \<le> capacity q \<and> capacity q \<le> length (Elements q)"

text \<open>The live elements: the first \<open>size\<close> slots of the array.\<close>

definition live :: "('a, 'z) HeapVec_scheme \<Rightarrow> 'a list" where
  "live h = take (size_m h) (Elements h)"

text \<open>
  The max-heap order on the first \<open>n\<close> slots, restricted to the parents at or after \<open>k\<close>
  (\<open>k = 0\<close>: the heap invariant), and the two weakened forms that hold while one element
  is being sifted down from, or up from, the index \<open>i\<close>.
\<close>

definition heap_from :: "'a::linorder list \<Rightarrow> nat \<Rightarrow> nat \<Rightarrow> bool" where
  "heap_from xs n k \<longleftrightarrow>
     (\<forall>j. 0 < j \<and> j < n \<and> k \<le> GetParent j \<longrightarrow> xs ! j \<le> xs ! GetParent j)"

definition down_inv :: "'a::linorder list \<Rightarrow> nat \<Rightarrow> nat \<Rightarrow> nat \<Rightarrow> bool" where
  "down_inv xs n k i \<longleftrightarrow>
     (\<forall>j. 0 < j \<and> j < n \<and> k \<le> GetParent j \<and> GetParent j \<noteq> i \<longrightarrow> xs ! j \<le> xs ! GetParent j) \<and>
     (0 < i \<and> k \<le> GetParent i \<longrightarrow>
        (\<forall>c. 0 < c \<and> c < n \<and> GetParent c = i \<longrightarrow> xs ! c \<le> xs ! GetParent i))"

definition up_inv :: "'a::linorder list \<Rightarrow> nat \<Rightarrow> nat \<Rightarrow> bool" where
  "up_inv xs n i \<longleftrightarrow>
     (\<forall>j. 0 < j \<and> j < n \<and> j \<noteq> i \<longrightarrow> xs ! j \<le> xs ! GetParent j) \<and>
     (0 < i \<longrightarrow> (\<forall>c. 0 < c \<and> c < n \<and> GetParent c = i \<longrightarrow> xs ! c \<le> xs ! GetParent i))"

text \<open>
  The state of the outer loop of \<^verbatim>\<open>Sort\<close> before the iteration for \<open>i\<close>, on an array
  with \<open>N\<close> live slots: the slots up to \<open>i\<close> form a heap, the slots after \<open>i\<close> are in
  ascending order, and no slot up to \<open>i\<close> exceeds a slot after \<open>i\<close>.
\<close>

definition sort_inv :: "'a::linorder list \<Rightarrow> nat \<Rightarrow> nat \<Rightarrow> bool" where
  "sort_inv xs N i \<longleftrightarrow>
     heap_from xs (Suc i) 0 \<and>
     (\<forall>a b. i < a \<and> a \<le> b \<and> b < N \<longrightarrow> xs ! a \<le> xs ! b) \<and>
     (\<forall>a b. a \<le> i \<and> i < b \<and> b < N \<longrightarrow> xs ! a \<le> xs ! b)"

section \<open>Index arithmetic and swaps\<close>

lemma length_swap_elems [simp]: "length (swap_elems xs i j) = length xs"
  by (simp add: swap_elems_def)

lemma nth_swap_elems:
  "i < length xs \<Longrightarrow> j < length xs \<Longrightarrow>
   swap_elems xs i j ! k = (if k = j then xs ! i else if k = i then xs ! j else xs ! k)"
  by (simp add: swap_elems_def nth_list_update)

lemma mset_swap_elems:
  "i < length xs \<Longrightarrow> j < length xs \<Longrightarrow> mset (swap_elems xs i j) = mset xs"
  unfolding swap_elems_def by (simp add: mset_swap)

lemma take_swap_elems:
  "i < n \<Longrightarrow> j < n \<Longrightarrow> take n (swap_elems xs i j) = swap_elems (take n xs) i j"
  by (simp add: swap_elems_def take_update_swap)

lemma drop_swap_elems:
  "i < n \<Longrightarrow> j < n \<Longrightarrow> drop n (swap_elems xs i j) = drop n xs"
  by (simp add: swap_elems_def)

lemma parent_child_cases:
  "0 < c \<Longrightarrow> GetParent c = i \<longleftrightarrow> c = GetLeftChild i \<or> c = GetRightChild i"
  unfolding GetParent_def GetLeftChild_def GetRightChild_def by presburger

lemma parent_less: "0 < j \<Longrightarrow> GetParent j < j"
  unfolding GetParent_def by simp

lemma parent_left [simp]: "GetParent (GetLeftChild i) = i"
  unfolding GetParent_def GetLeftChild_def by simp

lemma parent_right [simp]: "GetParent (GetRightChild i) = i"
  unfolding GetParent_def GetRightChild_def by simp


section \<open>Sifting down\<close>

lemma down_inv_leaf:
  assumes "down_inv xs n k i" "\<not> HasLeftChild i n"
  shows "heap_from xs n k"
  unfolding heap_from_def
proof (intro allI impI)
  fix j assume j: "0 < j \<and> j < n \<and> k \<le> GetParent j"
  have "GetParent j \<noteq> i"
  proof
    assume "GetParent j = i"
    with j have "j = GetLeftChild i \<or> j = GetRightChild i"
      by (simp add: parent_child_cases)
    with j assms(2) show False
      by (auto simp: HasLeftChild_def GetLeftChild_def GetRightChild_def)
  qed
  with assms(1) j show "xs ! j \<le> xs ! GetParent j"
    unfolding down_inv_def by blast
qed

lemma down_inv_stop:
  assumes "down_inv xs n k i"
    and "HasLeftChild i n"
    and "xs ! GetLeftChild i \<le> xs ! i"
    and "HasRightChild i n \<longrightarrow> xs ! GetRightChild i \<le> xs ! i"
  shows "heap_from xs n k"
  unfolding heap_from_def
proof (intro allI impI)
  fix j assume j: "0 < j \<and> j < n \<and> k \<le> GetParent j"
  show "xs ! j \<le> xs ! GetParent j"
  proof (cases "GetParent j = i")
    case True
    with j have "j = GetLeftChild i \<or> j = GetRightChild i"
      by (simp add: parent_child_cases)
    with j assms(3,4) True show ?thesis
      by (auto simp: HasRightChild_def)
  next
    case False
    with assms(1) j show ?thesis unfolding down_inv_def by blast
  qed
qed

lemma down_inv_swap:
  assumes inv: "down_inv xs n k i"
    and n: "n \<le> length xs"
    and lc: "lc = GetLeftChild i \<or> lc = GetRightChild i" "lc < n"
    and big: "xs ! i < xs ! lc"
    and left: "GetLeftChild i < n \<longrightarrow> xs ! GetLeftChild i \<le> xs ! lc"
    and right: "GetRightChild i < n \<longrightarrow> xs ! GetRightChild i \<le> xs ! lc"
  shows "down_inv (swap_elems xs i lc) n k lc"
proof -
  let ?ys = "swap_elems xs i lc"
  have ilc: "i < lc" using lc(1) by (auto simp: GetLeftChild_def GetRightChild_def)
  have pl: "GetParent lc = i" using lc(1) by auto
  have il: "i < length xs" "lc < length xs" using ilc lc(2) n by auto
  have nth: "\<And>m. ?ys ! m = (if m = lc then xs ! i else if m = i then xs ! lc else xs ! m)"
    using il by (simp add: nth_swap_elems)
  have part1: "\<forall>j. 0 < j \<and> j < n \<and> k \<le> GetParent j \<and> GetParent j \<noteq> lc \<longrightarrow> ?ys ! j \<le> ?ys ! GetParent j"
  proof (intro allI impI)
    fix j assume j: "0 < j \<and> j < n \<and> k \<le> GetParent j \<and> GetParent j \<noteq> lc"
    show "?ys ! j \<le> ?ys ! GetParent j"
    proof (cases "GetParent j = i")
      case True
      with j have c: "j = GetLeftChild i \<or> j = GetRightChild i"
        by (simp add: parent_child_cases)
      have "j \<noteq> i" using True j parent_less[of j] by auto
      with c j True left right big show ?thesis
        by (auto simp: nth)
    next
      case False
      have jl: "j \<noteq> lc" using False pl by auto
      show ?thesis
      proof (cases "j = i")
        case True
        then have "0 < i" "k \<le> GetParent i" using j by auto
        with inv lc(2) pl ilc have "xs ! lc \<le> xs ! GetParent i"
          unfolding down_inv_def by (metis gr_implies_not0 not_gr_zero)
        moreover have "GetParent i \<noteq> i" "GetParent i \<noteq> lc"
          using parent_less[of i] \<open>0 < i\<close> ilc by auto
        ultimately show ?thesis using True ilc by (simp add: nth)
      next
        case ji: False
        from inv j False have "xs ! j \<le> xs ! GetParent j"
          unfolding down_inv_def by blast
        with ji jl False j show ?thesis by (simp add: nth)
      qed
    qed
  qed
  have part2: "\<forall>c. 0 < c \<and> c < n \<and> GetParent c = lc \<longrightarrow> ?ys ! c \<le> ?ys ! GetParent lc"
    if "k \<le> GetParent lc"
  proof (intro allI impI)
    fix c assume c: "0 < c \<and> c < n \<and> GetParent c = lc"
    have "lc < c" using c parent_less[of c] by auto
    then have cne: "c \<noteq> lc" "c \<noteq> i" using ilc by auto
    have "k \<le> GetParent c" using that pl c ilc by auto
    with inv c ilc have "xs ! c \<le> xs ! lc"
      unfolding down_inv_def by (metis nat_neq_iff)
    with cne show "?ys ! c \<le> ?ys ! GetParent lc"
      by (simp add: nth pl)
  qed
  show ?thesis unfolding down_inv_def using part1 part2 by blast
qed


lemma HeapifyDown_induct [case_names stop step]:
  assumes stop: "\<And>xs n i. HeapifyDown xs n i = xs \<Longrightarrow>
            (HasLeftChild i n \<longrightarrow> xs ! GetLeftChild i \<le> xs ! i \<and>
               (HasRightChild i n \<longrightarrow> xs ! GetRightChild i \<le> xs ! i)) \<Longrightarrow> P xs n i"
    and step: "\<And>xs n i lc. lc = GetLeftChild i \<or> lc = GetRightChild i \<Longrightarrow> lc < n \<Longrightarrow>
            xs ! i < xs ! lc \<Longrightarrow>
            (GetLeftChild i < n \<longrightarrow> xs ! GetLeftChild i \<le> xs ! lc) \<Longrightarrow>
            (GetRightChild i < n \<longrightarrow> xs ! GetRightChild i \<le> xs ! lc) \<Longrightarrow>
            HeapifyDown xs n i = HeapifyDown (swap_elems xs i lc) n lc \<Longrightarrow>
            P (swap_elems xs i lc) n lc \<Longrightarrow> P xs n i"
  shows "P xs n i"
proof (induction xs n i rule: HeapifyDown.induct)
  case (1 xs n index)
  show ?case
  proof (cases "HasLeftChild index n")
    case False
    then have "HeapifyDown xs n index = xs"
      by (subst HeapifyDown.simps) simp
    with False show ?thesis by (intro stop) auto
  next
    case True
    define lc where "lc = (if HasRightChild index n \<and> xs ! GetRightChild index > xs ! GetLeftChild index
                then GetRightChild index else GetLeftChild index)"
    have lc1: "lc = GetLeftChild index \<or> lc = GetRightChild index" by (simp add: lc_def)
    have lc2: "lc < n" using True by (auto simp: lc_def HasLeftChild_def HasRightChild_def)
    have left: "GetLeftChild index < n \<longrightarrow> xs ! GetLeftChild index \<le> xs ! lc"
      by (auto simp: lc_def)
    have right: "GetRightChild index < n \<longrightarrow> xs ! GetRightChild index \<le> xs ! lc"
      by (auto simp: lc_def HasRightChild_def)
    show ?thesis
    proof (cases "xs ! index \<ge> xs ! lc")
      case le: True
      have "HeapifyDown xs n index = xs"
        using True le by (subst HeapifyDown.simps) (simp add: lc_def Let_def)
      moreover have "xs ! GetLeftChild index \<le> xs ! index"
        using le left True by (auto simp: HasLeftChild_def)
      moreover have "HasRightChild index n \<longrightarrow> xs ! GetRightChild index \<le> xs ! index"
        using le right by (auto simp: HasRightChild_def)
      ultimately show ?thesis by (intro stop) auto
    next
      case go: False
      have eq: "HeapifyDown xs n index = HeapifyDown (swap_elems xs index lc) n lc"
        using True go by (subst HeapifyDown.simps) (simp add: lc_def Let_def)
      have "P (swap_elems xs index lc) n lc"
        using 1[OF True lc_def go] .
      with lc1 lc2 go left right eq show ?thesis
        by (intro step[of lc index n xs]) auto
    qed
  qed
qed

lemma HeapifyDown_heap_from:
  "n \<le> length xs \<Longrightarrow> down_inv xs n k i \<Longrightarrow> heap_from (HeapifyDown xs n i) n k"
proof (induction xs n i rule: HeapifyDown_induct)
  case (stop xs n i)
  show ?case
  proof (cases "HasLeftChild i n")
    case True
    with stop show ?thesis by (simp add: down_inv_stop[of xs n k i])
  next
    case False
    with stop show ?thesis by (simp add: down_inv_leaf[of xs n k i])
  qed
next
  case (step xs n i lc)
  have "down_inv (swap_elems xs i lc) n k lc"
    using step by (intro down_inv_swap) auto
  with step show ?case by simp
qed

lemma length_HeapifyDown [simp]: "length (HeapifyDown xs n i) = length xs"
  by (induction xs n i rule: HeapifyDown_induct) auto

lemma take_HeapifyDown:
  "n \<le> length xs \<Longrightarrow> mset (take n (HeapifyDown xs n i)) = mset (take n xs)"
proof (induction xs n i rule: HeapifyDown_induct)
  case (stop xs n i)
  then show ?case by simp
next
  case (step xs n i lc)
  have "i < lc" using step(1) by (auto simp: GetLeftChild_def GetRightChild_def)
  with step show ?case
    by (simp add: take_swap_elems mset_swap_elems)
qed

lemma drop_HeapifyDown: "drop n (HeapifyDown xs n i) = drop n xs"
proof (induction xs n i rule: HeapifyDown_induct)
  case (stop xs n i)
  then show ?case by simp
next
  case (step xs n i lc)
  have "i < lc" using step(1) by (auto simp: GetLeftChild_def GetRightChild_def)
  with step show ?case
    by (simp add: drop_swap_elems)
qed

section \<open>Sifting up\<close>

lemma HeapifyUp_induct [case_names stop step]:
  assumes stop: "\<And>xs i. HeapifyUp xs i = xs \<Longrightarrow>
            (0 < i \<longrightarrow> xs ! i \<le> xs ! GetParent i) \<Longrightarrow> P xs i"
    and step: "\<And>xs i. 0 < i \<Longrightarrow> xs ! GetParent i < xs ! i \<Longrightarrow>
            HeapifyUp xs i = HeapifyUp (swap_elems xs i (GetParent i)) (GetParent i) \<Longrightarrow>
            P (swap_elems xs i (GetParent i)) (GetParent i) \<Longrightarrow> P xs i"
  shows "P xs i"
proof (induction xs i rule: HeapifyUp.induct)
  case (1 xs index)
  show ?case
  proof (cases "0 < index \<and> xs ! GetParent index < xs ! index")
    case False
    then have e: "HeapifyUp xs index = xs"
      unfolding HeapifyUp.simps[of xs index] by (auto simp: Let_def)
    from False have "0 < index \<longrightarrow> xs ! index \<le> xs ! GetParent index" by auto
    with e show ?thesis by (rule stop)
  next
    case True
    have eq: "HeapifyUp xs index = HeapifyUp (swap_elems xs index (GetParent index)) (GetParent index)"
      using True unfolding HeapifyUp.simps[of xs index] by (auto simp: Let_def)
    have "P (swap_elems xs index (GetParent index)) (GetParent index)"
      using 1[of "GetParent index"] True by simp
    with True eq show ?thesis using step[of index xs] by blast
  qed
qed

lemma up_inv_stop:
  assumes "up_inv xs n i" "0 < i \<longrightarrow> xs ! i \<le> xs ! GetParent i"
  shows "heap_from xs n 0"
  unfolding heap_from_def
proof (intro allI impI)
  fix j assume j: "0 < j \<and> j < n \<and> 0 \<le> GetParent j"
  show "xs ! j \<le> xs ! GetParent j"
  proof (cases "j = i")
    case True
    with assms(2) j show ?thesis by simp
  next
    case False
    with assms(1) j show ?thesis unfolding up_inv_def by blast
  qed
qed

lemma up_inv_swap:
  assumes inv: "up_inv xs n i"
    and n: "n \<le> length xs" "i < n"
    and i: "0 < i" "xs ! GetParent i < xs ! i"
  shows "up_inv (swap_elems xs i (GetParent i)) n (GetParent i)"
proof -
  let ?p = "GetParent i"
  let ?ys = "swap_elems xs i ?p"
  have pi: "?p < i" using i(1) by (rule parent_less)
  have il: "i < length xs" "?p < length xs" using pi n by auto
  have nth: "\<And>m. ?ys ! m = (if m = ?p then xs ! i else if m = i then xs ! ?p else xs ! m)"
    using il by (simp add: nth_swap_elems)
  have part1: "\<forall>j. 0 < j \<and> j < n \<and> j \<noteq> ?p \<longrightarrow> ?ys ! j \<le> ?ys ! GetParent j"
  proof (intro allI impI)
    fix j assume j: "0 < j \<and> j < n \<and> j \<noteq> ?p"
    have pj: "GetParent j < j" using j by (simp add: parent_less)
    show "?ys ! j \<le> ?ys ! GetParent j"
    proof (cases "j = i")
      case True
      with i pi show ?thesis by (simp add: nth)
    next
      case ji: False
      then have old: "xs ! j \<le> xs ! GetParent j"
        using inv j unfolding up_inv_def by blast
      show ?thesis
      proof (cases "GetParent j = i")
        case True
        then have "xs ! j \<le> xs ! ?p"
          using inv j i(1) unfolding up_inv_def by blast
        with True ji j pi show ?thesis by (simp add: nth)
      next
        case False
        with old ji j i(2) show ?thesis by (auto simp: nth)
      qed
    qed
  qed
  have part2: "\<forall>c. 0 < c \<and> c < n \<and> GetParent c = ?p \<longrightarrow> ?ys ! c \<le> ?ys ! GetParent ?p"
    if pos: "0 < ?p"
  proof (intro allI impI)
    fix c assume c: "0 < c \<and> c < n \<and> GetParent c = ?p"
    have pp: "GetParent ?p < ?p" using pos by (rule parent_less)
    have ppn: "GetParent ?p \<noteq> i" "GetParent ?p \<noteq> ?p" using pp pi by auto
    have "?p < n" using pi n by simp
    have top: "xs ! ?p \<le> xs ! GetParent ?p"
    proof -
      have "0 < ?p \<and> ?p < n \<and> ?p \<noteq> i" using pos pi \<open>?p < n\<close> by simp
      with inv show ?thesis unfolding up_inv_def by blast
    qed
    have cp: "c \<noteq> ?p" using c parent_less[of c] by auto
    show "?ys ! c \<le> ?ys ! GetParent ?p"
    proof (cases "c = i")
      case True
      with top ppn pi show ?thesis by (simp add: nth)
    next
      case False
      have "0 < c \<and> c < n \<and> c \<noteq> i" using c False by simp
      with inv have "xs ! c \<le> xs ! GetParent c" unfolding up_inv_def by blast
      with c have "xs ! c \<le> xs ! ?p" by simp
      with top False cp ppn show ?thesis by (simp add: nth)
    qed
  qed
  show ?thesis unfolding up_inv_def using part1 part2 by blast
qed

lemma HeapifyUp_heap:
  "n \<le> length xs \<Longrightarrow> i < n \<Longrightarrow> up_inv xs n i \<Longrightarrow> heap_from (HeapifyUp xs i) n 0"
proof (induction xs i rule: HeapifyUp_induct)
  case (stop xs i)
  then show ?case by (simp add: up_inv_stop[of xs n i])
next
  case (step xs i)
  have "up_inv (swap_elems xs i (GetParent i)) n (GetParent i)"
    using step by (intro up_inv_swap) auto
  moreover have "GetParent i < n" using step parent_less[of i] by simp
  ultimately show ?case using step by simp
qed

lemma length_HeapifyUp [simp]: "length (HeapifyUp xs i) = length xs"
  by (induction xs i rule: HeapifyUp_induct) auto

lemma take_HeapifyUp:
  "i < n \<Longrightarrow> n \<le> length xs \<Longrightarrow> mset (take n (HeapifyUp xs i)) = mset (take n xs)"
proof (induction xs i rule: HeapifyUp_induct)
  case (stop xs i)
  then show ?case by simp
next
  case (step xs i)
  have "GetParent i < n" using step parent_less[of i] by simp
  with step show ?case
    by (simp add: take_swap_elems mset_swap_elems)
qed

lemma drop_HeapifyUp: "i < n \<Longrightarrow> drop n (HeapifyUp xs i) = drop n xs"
proof (induction xs i rule: HeapifyUp_induct)
  case (stop xs i)
  then show ?case by simp
next
  case (step xs i)
  have "GetParent i < n" using step parent_less[of i] by simp
  with step show ?case
    by (simp add: drop_swap_elems)
qed

section \<open>The heap order\<close>

lemma heap_root_max:
  assumes "heap_from xs n 0" "j < n"
  shows "xs ! j \<le> xs ! 0"
  using assms(2)
proof (induction j rule: less_induct)
  case (less j)
  show ?case
  proof (cases "j = 0")
    case True
    then show ?thesis by simp
  next
    case False
    then have pj: "GetParent j < j" by (simp add: parent_less)
    have "xs ! j \<le> xs ! GetParent j"
      using assms(1) False less.prems unfolding heap_from_def by simp
    also have "\<dots> \<le> xs ! 0"
      using less.IH[OF pj] pj less.prems by simp
    finally show ?thesis .
  qed
qed

lemma IsHeap_loop_iff:
  "IsHeap_loop xs n i \<longleftrightarrow>
     (\<forall>j. i \<le> j \<and> j < n \<longrightarrow>
        (HasLeftChild j n \<longrightarrow> \<not> xs ! j < xs ! GetLeftChild j) \<and>
        (HasRightChild j n \<longrightarrow> \<not> xs ! j < xs ! GetRightChild j))"
proof (induction xs n i rule: IsHeap_loop.induct)
  case (1 xs n i)
  define Q where "Q = (\<lambda>j. (HasLeftChild j n \<longrightarrow> \<not> xs ! j < xs ! GetLeftChild j) \<and>
        (HasRightChild j n \<longrightarrow> \<not> xs ! j < xs ! GetRightChild j))"
  have goal: "IsHeap_loop xs n i \<longleftrightarrow> (\<forall>j. i \<le> j \<and> j < n \<longrightarrow> Q j)"
  proof (cases "i < n")
    case False
    then have "IsHeap_loop xs n i" by (subst IsHeap_loop.simps) simp
    with False show ?thesis by auto
  next
    case True
    show ?thesis
    proof (cases "Q i")
      case bad: False
      then have "\<not> IsHeap_loop xs n i"
        using True unfolding Q_def by (subst IsHeap_loop.simps) auto
      with bad True show ?thesis by auto
    next
      case ok: True
      then have "IsHeap_loop xs n i = IsHeap_loop xs n (i + 1)"
        using True unfolding Q_def by (subst IsHeap_loop.simps) auto
      also have "\<dots> \<longleftrightarrow> (\<forall>j. i + 1 \<le> j \<and> j < n \<longrightarrow> Q j)"
        using 1 True ok unfolding Q_def by blast
      also have "\<dots> \<longleftrightarrow> (\<forall>j. i \<le> j \<and> j < n \<longrightarrow> Q j)"
      proof -
        have "\<And>j. i \<le> j \<longleftrightarrow> j = i \<or> i + 1 \<le> j" by auto
        with ok show ?thesis by auto
      qed
      finally show ?thesis .
    qed
  qed
  then show ?case unfolding Q_def .
qed

lemma IsHeap_loop_heap_from: "IsHeap_loop xs n 0 \<longleftrightarrow> heap_from xs n 0"
proof
  assume "IsHeap_loop xs n 0"
  then have ch: "\<And>j. j < n \<Longrightarrow>
        (HasLeftChild j n \<longrightarrow> \<not> xs ! j < xs ! GetLeftChild j) \<and>
        (HasRightChild j n \<longrightarrow> \<not> xs ! j < xs ! GetRightChild j)"
    by (simp add: IsHeap_loop_iff)
  show "heap_from xs n 0"
    unfolding heap_from_def
  proof (intro allI impI)
    fix j assume j: "0 < j \<and> j < n \<and> 0 \<le> GetParent j"
    then have p: "GetParent j < n" using parent_less[of j] by simp
    from j have "j = GetLeftChild (GetParent j) \<or> j = GetRightChild (GetParent j)"
      using parent_child_cases[of j "GetParent j"] by simp
    with ch[OF p] j show "xs ! j \<le> xs ! GetParent j"
      by (auto simp: HasLeftChild_def HasRightChild_def not_less)
  qed
next
  assume h: "heap_from xs n 0"
  have "\<And>j. j < n \<Longrightarrow>
        (HasLeftChild j n \<longrightarrow> \<not> xs ! j < xs ! GetLeftChild j) \<and>
        (HasRightChild j n \<longrightarrow> \<not> xs ! j < xs ! GetRightChild j)"
  proof -
    fix j assume "j < n"
    have l: "0 < GetLeftChild j" "0 < GetRightChild j"
      by (simp_all add: GetLeftChild_def GetRightChild_def)
    from h have "\<And>c. 0 < c \<and> c < n \<longrightarrow> xs ! c \<le> xs ! GetParent c"
      unfolding heap_from_def by simp
    from this[of "GetLeftChild j"] this[of "GetRightChild j"] l
    have "GetLeftChild j < n \<longrightarrow> xs ! GetLeftChild j \<le> xs ! j"
      and "GetRightChild j < n \<longrightarrow> xs ! GetRightChild j \<le> xs ! j"
      by simp_all
    then
    show "(HasLeftChild j n \<longrightarrow> \<not> xs ! j < xs ! GetLeftChild j) \<and>
        (HasRightChild j n \<longrightarrow> \<not> xs ! j < xs ! GetRightChild j)"
      by (auto simp: HasLeftChild_def HasRightChild_def)
  qed
  then show "IsHeap_loop xs n 0" by (simp add: IsHeap_loop_iff)
qed

section \<open>The element loops of the storage substrate\<close>

lemma length_copy_loop [simp]: "length (copy_loop src dst n i) = length dst"
proof (induction src dst n i rule: copy_loop.induct)
  case (1 src dst n i)
  show ?case
  proof (cases "i < n")
    case True
    with 1 show ?thesis unfolding copy_loop.simps[of src dst n i] by simp
  next
    case False
    then show ?thesis unfolding copy_loop.simps[of src dst n i] by simp
  qed
qed

lemma nth_copy_loop:
  "k < length dst \<Longrightarrow>
   copy_loop src dst n i ! k = (if i \<le> k \<and> k < n then src ! k else dst ! k)"
proof (induction src dst n i rule: copy_loop.induct)
  case (1 src dst n i)
  show ?case
  proof (cases "i < n")
    case True
    have "copy_loop src dst n i ! k = copy_loop src (dst[i := src ! i]) n (i + 1) ! k"
      using True unfolding copy_loop.simps[of src dst n i] by simp
    also have "\<dots> = (if i + 1 \<le> k \<and> k < n then src ! k else dst[i := src ! i] ! k)"
      using 1 True by simp
    also have "\<dots> = (if i \<le> k \<and> k < n then src ! k else dst ! k)"
    proof (cases "k = i")
      case True
      with 1(2) \<open>i < n\<close> show ?thesis by simp
    next
      case False
      then have "i + 1 \<le> k \<longleftrightarrow> i \<le> k" by auto
      with False 1(2) show ?thesis by simp
    qed
    finally show ?thesis .
  next
    case False
    then show ?thesis unfolding copy_loop.simps[of src dst n i] by auto
  qed
qed

lemma take_copy_loop:
  assumes "n \<le> length src" "n \<le> length dst"
  shows "take n (copy_loop src dst n 0) = take n src"
  using assms by (intro nth_equalityI) (simp_all add: nth_copy_loop)

lemma copy_loop_replicate:
  assumes "n \<le> length src" "n \<le> m"
  shows "copy_loop src (replicate m z) n 0 = take n src @ replicate (m - n) z"
  using assms by (intro nth_equalityI) (auto simp: nth_copy_loop nth_append)

lemma eq_loop_iff: "eq_loop xs ys n i \<longleftrightarrow> (\<forall>j. i \<le> j \<and> j < n \<longrightarrow> xs ! j = ys ! j)"
proof (induction xs ys n i rule: eq_loop.induct)
  case (1 xs ys n i)
  show ?case
  proof (cases "i < n")
    case False
    then show ?thesis unfolding eq_loop.simps[of xs ys n i] by auto
  next
    case True
    show ?thesis
    proof (cases "xs ! i = ys ! i")
      case False
      with True show ?thesis unfolding eq_loop.simps[of xs ys n i] by auto
    next
      case eq: True
      have "eq_loop xs ys n i = eq_loop xs ys n (i + 1)"
        using True eq unfolding eq_loop.simps[of xs ys n i] by simp
      also have "\<dots> \<longleftrightarrow> (\<forall>j. i + 1 \<le> j \<and> j < n \<longrightarrow> xs ! j = ys ! j)"
        using 1 True eq by simp
      also have "\<dots> \<longleftrightarrow> (\<forall>j. i \<le> j \<and> j < n \<longrightarrow> xs ! j = ys ! j)"
      proof -
        have "\<And>j. i \<le> j \<longleftrightarrow> j = i \<or> i + 1 \<le> j" by auto
        with eq show ?thesis by auto
      qed
      finally show ?thesis .
    qed
  qed
qed

lemma find_loop_bounds: "idx \<le> n \<Longrightarrow> idx \<le> find_loop xs n v idx \<and> find_loop xs n v idx \<le> n"
proof (induction xs n v idx rule: find_loop.induct)
  case (1 xs n v idx)
  show ?case
  proof (cases "idx < n \<and> \<not> (xs ! idx = v)")
    case True
    with 1 show ?thesis unfolding find_loop.simps[of xs n v idx] by auto
  next
    case False
    with 1(2) show ?thesis unfolding find_loop.simps[of xs n v idx] by auto
  qed
qed

lemma find_loop_iff:
  "idx \<le> n \<Longrightarrow> find_loop xs n v idx = n \<longleftrightarrow> (\<forall>j. idx \<le> j \<and> j < n \<longrightarrow> xs ! j \<noteq> v)"
proof (induction xs n v idx rule: find_loop.induct)
  case (1 xs n v idx)
  show ?case
  proof (cases "idx < n")
    case False
    with 1(2) show ?thesis unfolding find_loop.simps[of xs n v idx] by auto
  next
    case True
    show ?thesis
    proof (cases "xs ! idx = v")
      case hit: True
      with True have "find_loop xs n v idx = idx"
        unfolding find_loop.simps[of xs n v idx] by simp
      with True hit show ?thesis by auto
    next
      case miss: False
      have "find_loop xs n v idx = find_loop xs n v (idx + 1)"
        using True miss unfolding find_loop.simps[of xs n v idx] by simp
      also have "\<dots> = n \<longleftrightarrow> (\<forall>j. idx + 1 \<le> j \<and> j < n \<longrightarrow> xs ! j \<noteq> v)"
        using 1(1) True miss by simp
      also have "\<dots> \<longleftrightarrow> (\<forall>j. idx \<le> j \<and> j < n \<longrightarrow> xs ! j \<noteq> v)"
      proof -
        have "\<And>j. idx \<le> j \<longleftrightarrow> j = idx \<or> idx + 1 \<le> j" by auto
        with miss show ?thesis by auto
      qed
      finally show ?thesis .
    qed
  qed
qed

lemma find_loop_found:
  "idx \<le> n \<Longrightarrow> find_loop xs n v idx \<noteq> n \<Longrightarrow>
     find_loop xs n v idx < n \<and> xs ! find_loop xs n v idx = v"
proof (induction xs n v idx rule: find_loop.induct)
  case (1 xs n v idx)
  show ?case
  proof (cases "idx < n \<and> \<not> (xs ! idx = v)")
    case True
    then have "find_loop xs n v idx = find_loop xs n v (idx + 1)"
      unfolding find_loop.simps[of xs n v idx] by simp
    with 1 True show ?thesis by auto
  next
    case False
    then have "find_loop xs n v idx = idx"
      unfolding find_loop.simps[of xs n v idx] by auto
    with 1(2,3) False show ?thesis by auto
  qed
qed

section \<open>Bulk heapification\<close>

lemma IsHeap_iff: "IsHeap h \<longleftrightarrow> heap_from (Elements h) (size_m h) 0"
  by (simp add: IsHeap_def IsHeap_loop_heap_from)

lemma heap_from_cong:
  "(\<And>j. j < n \<Longrightarrow> xs ! j = ys ! j) \<Longrightarrow> heap_from xs n k = heap_from ys n k"
proof -
  assume eq: "\<And>j. j < n \<Longrightarrow> xs ! j = ys ! j"
  have "\<And>j. 0 < j \<Longrightarrow> j < n \<Longrightarrow> xs ! j = ys ! j \<and> xs ! GetParent j = ys ! GetParent j"
  proof -
    fix j :: nat assume "0 < j" "j < n"
    then have "GetParent j < n" using parent_less[of j] by simp
    with \<open>j < n\<close> eq show "xs ! j = ys ! j \<and> xs ! GetParent j = ys ! GetParent j" by simp
  qed
  then show ?thesis unfolding heap_from_def by auto
qed

lemma heap_from_take: "heap_from (take n xs) n k = heap_from xs n k"
  by (rule heap_from_cong) simp

lemma IsHeap_live: "IsHeap h \<longleftrightarrow> heap_from (live h) (size_m h) 0"
  by (simp add: IsHeap_iff live_def heap_from_take)

lemma heap_from_leaves: "heap_from xs n (n div 2)"
  unfolding heap_from_def GetParent_def by auto

lemma heap_from_down_inv:
  assumes "heap_from xs n (Suc i)"
  shows "down_inv xs n i i"
  unfolding down_inv_def
proof (intro conjI allI impI)
  fix j assume j: "0 < j \<and> j < n \<and> i \<le> GetParent j \<and> GetParent j \<noteq> i"
  then have "Suc i \<le> GetParent j" by simp
  with assms j show "xs ! j \<le> xs ! GetParent j" unfolding heap_from_def by blast
next
  fix c assume "0 < i \<and> i \<le> GetParent i"
  then have False using parent_less[of i] by simp
  then show "xs ! c \<le> xs ! GetParent i" ..
qed

lemma Heapify_loop_props:
  "n \<le> length xs \<Longrightarrow> - 1 \<le> i \<Longrightarrow> heap_from xs n (nat (i + 1)) \<Longrightarrow>
     heap_from (Heapify_loop xs n i) n 0 \<and>
     length (Heapify_loop xs n i) = length xs \<and>
     mset (take n (Heapify_loop xs n i)) = mset (take n xs) \<and>
     drop n (Heapify_loop xs n i) = drop n xs"
proof (induction xs n i rule: Heapify_loop.induct)
  case (1 xs n i)
  show ?case
  proof (cases "0 \<le> i")
    case False
    with 1(3) have "i = - 1" by simp
    moreover from False have "Heapify_loop xs n i = xs"
      unfolding Heapify_loop.simps[of xs n i] by simp
    ultimately show ?thesis using 1(4) by simp
  next
    case True
    let ?ys = "HeapifyDown xs n (nat i)"
    have e: "Heapify_loop xs n i = Heapify_loop ?ys n (i - 1)"
      using True unfolding Heapify_loop.simps[of xs n i] by simp
    have "nat (i + 1) = Suc (nat i)" using True by simp
    with 1(4) have "down_inv xs n (nat i) (nat i)" by (simp add: heap_from_down_inv)
    then have h: "heap_from ?ys n (nat i)" using 1(2) by (rule HeapifyDown_heap_from[rotated])
    have "nat (i - 1 + 1) = nat i" by simp
    with h have "heap_from ?ys n (nat (i - 1 + 1))" by simp
    moreover have "n \<le> length ?ys" using 1(2) by simp
    moreover have "- 1 \<le> i - 1" using True by simp
    ultimately have "heap_from (Heapify_loop ?ys n (i - 1)) n 0 \<and>
     length (Heapify_loop ?ys n (i - 1)) = length ?ys \<and>
     mset (take n (Heapify_loop ?ys n (i - 1))) = mset (take n ?ys) \<and>
     drop n (Heapify_loop ?ys n (i - 1)) = drop n ?ys"
      using 1(1)[OF True] by blast
    with e 1(2) show ?thesis by (simp add: take_HeapifyDown drop_HeapifyDown)
  qed
qed

lemma Heapify_props:
  assumes "size_m h \<le> length (Elements h)"
  shows "IsHeap (Heapify h)" "size_m (Heapify h) = size_m h"
    "length (Elements (Heapify h)) = length (Elements h)"
    "mset (live (Heapify h)) = mset (live h)"
    "HeapVec.more (Heapify h) = HeapVec.more h"
proof -
  let ?n = "size_m h"
  have "nat (int (?n div 2) - 1 + 1) = ?n div 2" by simp
  then have "heap_from (Elements h) ?n (nat (int (?n div 2) - 1 + 1))"
    by (simp add: heap_from_leaves)
  moreover have "- 1 \<le> int (?n div 2) - 1" by simp
  ultimately have L: "heap_from (Heapify_loop (Elements h) ?n (int (?n div 2) - 1)) ?n 0 \<and>
     length (Heapify_loop (Elements h) ?n (int (?n div 2) - 1)) = length (Elements h) \<and>
     mset (take ?n (Heapify_loop (Elements h) ?n (int (?n div 2) - 1))) = mset (take ?n (Elements h))"
    using Heapify_loop_props[OF assms, of "int (?n div 2) - 1"] by blast
  have small: "heap_from (Elements h) ?n 0" if "\<not> 1 < ?n"
  proof -
    from that have "?n div 2 = 0" by simp
    with heap_from_leaves[of "Elements h" ?n] show ?thesis by simp
  qed
  show "IsHeap (Heapify h)" using L small by (simp add: Heapify_def IsHeap_iff)
  show "size_m (Heapify h) = size_m h" by (simp add: Heapify_def)
  show "length (Elements (Heapify h)) = length (Elements h)" using L by (simp add: Heapify_def)
  show "mset (live (Heapify h)) = mset (live h)" using L by (simp add: Heapify_def live_def)
  show "HeapVec.more (Heapify h) = HeapVec.more h" by (simp add: Heapify_def)
qed

lemma Sort_sift_eq: "Sort_sift xs n i = HeapifyDown xs n i"
proof (induction xs n i rule: HeapifyDown.induct)
  case (1 xs n index)
  let ?l = "GetLeftChild index" and ?r = "GetRightChild index"
  have lr: "?l < ?r" by (simp add: GetLeftChild_def GetRightChild_def)
  show ?case
  proof (cases "HasLeftChild index n")
    case False
    then have "\<not> ?l < n" "\<not> ?r < n" using lr by (auto simp: HasLeftChild_def)
    then have "Sort_sift xs n index = xs"
      unfolding Sort_sift.simps[of xs n index] by (simp add: Let_def)
    moreover from False have "HeapifyDown xs n index = xs"
      unfolding HeapifyDown.simps[of xs n index] by simp
    ultimately show ?thesis by simp
  next
    case True
    define lc where "lc = (if HasRightChild index n \<and> xs ! ?r > xs ! ?l then ?r else ?l)"
    have ln: "?l < n" using True by (simp add: HasLeftChild_def)
    have lci: "lc \<noteq> index" by (auto simp: lc_def GetLeftChild_def GetRightChild_def)
    show ?thesis
    proof (cases "xs ! index \<ge> xs ! lc")
      case stop: True
      then have "HeapifyDown xs n index = xs"
        using True unfolding HeapifyDown.simps[of xs n index] by (simp add: lc_def Let_def)
      moreover have "Sort_sift xs n index = xs"
        using stop ln unfolding Sort_sift.simps[of xs n index]
        by (auto simp: lc_def Let_def HasRightChild_def not_less split: if_splits)
      ultimately show ?thesis by simp
    next
      case go: False
      have d: "HeapifyDown xs n index = HeapifyDown (swap_elems xs index lc) n lc"
        using True go unfolding HeapifyDown.simps[of xs n index] by (simp add: lc_def Let_def)
      have s: "Sort_sift xs n index = Sort_sift (swap_elems xs index lc) n lc"
        using go ln lr unfolding Sort_sift.simps[of xs n index]
        by (auto simp: lc_def Let_def HasRightChild_def not_le GetLeftChild_def GetRightChild_def
                 split: if_splits)
      have "Sort_sift (swap_elems xs index lc) n lc = HeapifyDown (swap_elems xs index lc) n lc"
        using 1[OF True lc_def go] .
      with d s show ?thesis by simp
    qed
  qed
qed

section \<open>Heap sort\<close>

lemma nth_drop_eq:
  assumes "drop n xs = drop n ys" "length xs = length ys" "n \<le> b" "b < length xs"
  shows "xs ! b = ys ! b"
proof -
  have "drop n xs ! (b - n) = xs ! (n + (b - n))" using assms(3,4) by (intro nth_drop) simp
  moreover have "drop n ys ! (b - n) = ys ! (n + (b - n))" using assms(2,3,4) by (intro nth_drop) simp
  ultimately show ?thesis using assms(1,3) by simp
qed

lemma nth_in_take_mset:
  assumes "mset (take n xs) = mset (take n ys)" "a < n" "n \<le> length xs"
  shows "\<exists>k<n. k < length ys \<and> xs ! a = ys ! k"
proof -
  have "xs ! a \<in> set (take n xs)" using assms(2,3) by (simp add: in_set_conv_nth) (metis min.absorb2 nth_take)
  then have "xs ! a \<in> set (take n ys)" using assms(1) by (metis set_mset_mset)
  then obtain k where "k < length (take n ys)" "take n ys ! k = xs ! a"
    by (auto simp: in_set_conv_nth)
  then show ?thesis by (intro exI[of _ k]) auto
qed

lemma sort_inv_step:
  assumes inv: "sort_inv xs N i" and i: "0 < i" "i < N" "N \<le> length xs"
  shows "sort_inv (HeapifyDown (swap_elems xs 0 i) i 0) N (i - 1)"
proof -
  let ?ys = "swap_elems xs 0 i"
  let ?zs = "HeapifyDown ?ys i 0"
  have il: "i < length xs" "0 < length xs" using i by auto
  have nth: "\<And>m. ?ys ! m = (if m = i then xs ! 0 else if m = 0 then xs ! i else xs ! m)"
    using il by (simp add: nth_swap_elems)
  have hp: "heap_from xs (Suc i) 0" using inv by (simp add: sort_inv_def)
  have "down_inv ?ys i 0 0"
    unfolding down_inv_def
  proof (intro conjI allI impI)
    fix j assume j: "0 < j \<and> j < i \<and> 0 \<le> GetParent j \<and> GetParent j \<noteq> 0"
    then have "GetParent j < i" using parent_less[of j] by simp
    moreover from hp j have "xs ! j \<le> xs ! GetParent j" unfolding heap_from_def by simp
    ultimately show "?ys ! j \<le> ?ys ! GetParent j" using j by (simp add: nth)
  next
    fix c assume "(0::nat) < 0 \<and> 0 \<le> GetParent 0"
    then show "?ys ! c \<le> ?ys ! GetParent 0" by simp
  qed
  moreover have "i \<le> length ?ys" using il by simp
  ultimately have 1: "heap_from ?zs i 0" by (rule HeapifyDown_heap_from[rotated])
  have len: "length ?zs = length xs" by simp
  have tail: "\<And>b. i \<le> b \<Longrightarrow> b < length xs \<Longrightarrow> ?zs ! b = ?ys ! b"
    using nth_drop_eq[of i ?zs ?ys] by (simp add: drop_HeapifyDown)
  have ms: "mset (take i ?zs) = mset (take i ?ys)"
    using il by (simp add: take_HeapifyDown)
  have low: "\<exists>k\<le>i. ?zs ! a = xs ! k" if "a < i" for a
  proof -
    from nth_in_take_mset[OF ms that] il obtain k where "k < i" "?zs ! a = ?ys ! k" by auto
    then show ?thesis by (cases "k = 0") (auto simp: nth intro: exI[of _ i] exI[of _ k])
  qed
  have 2: "\<forall>a b. i - 1 < a \<and> a \<le> b \<and> b < N \<longrightarrow> ?zs ! a \<le> ?zs ! b"
  proof (intro allI impI)
    fix a b assume ab: "i - 1 < a \<and> a \<le> b \<and> b < N"
    then have ia: "i \<le> a" "i \<le> b" "a < length xs" "b < length xs" using i by auto
    show "?zs ! a \<le> ?zs ! b"
    proof (cases "a = b")
      case True
      then show ?thesis by simp
    next
      case False
      with ab have "a < b" by simp
      show ?thesis
      proof (cases "a = i")
        case True
        have "xs ! 0 \<le> xs ! b" using inv ab True \<open>a < b\<close> unfolding sort_inv_def by simp
        with True \<open>a < b\<close> ia i(1) show ?thesis by (simp add: tail nth)
      next
        case False
        with ia have "i < a" by simp
        then have "xs ! a \<le> xs ! b" using inv ab unfolding sort_inv_def by simp
        with \<open>i < a\<close> \<open>a < b\<close> ia show ?thesis by (simp add: tail nth)
      qed
    qed
  qed
  have 3: "\<forall>a b. a \<le> i - 1 \<and> i - 1 < b \<and> b < N \<longrightarrow> ?zs ! a \<le> ?zs ! b"
  proof (intro allI impI)
    fix a b assume ab: "a \<le> i - 1 \<and> i - 1 < b \<and> b < N"
    then have "a < i" "i \<le> b" "b < length xs" using i by auto
    from low[OF \<open>a < i\<close>] obtain k where k: "k \<le> i" "?zs ! a = xs ! k" by blast
    show "?zs ! a \<le> ?zs ! b"
    proof (cases "b = i")
      case True
      have "xs ! k \<le> xs ! 0" using heap_root_max[OF hp, of k] k(1) by simp
      with True k i(1) \<open>b < length xs\<close> show ?thesis by (simp add: tail nth)
    next
      case False
      with \<open>i \<le> b\<close> have "i < b" by simp
      then have "xs ! k \<le> xs ! b" using inv k(1) ab unfolding sort_inv_def by simp
      with \<open>i < b\<close> k \<open>b < length xs\<close> show ?thesis by (simp add: tail nth)
    qed
  qed
  from 1 2 3 i(1) show ?thesis by (simp add: sort_inv_def)
qed

lemma Sort_loop_props:
  "sort_inv xs N i \<Longrightarrow> i < N \<Longrightarrow> N \<le> length xs \<Longrightarrow>
     (\<forall>a b. a \<le> b \<and> b < N \<longrightarrow> Sort_loop xs i ! a \<le> Sort_loop xs i ! b) \<and>
     length (Sort_loop xs i) = length xs \<and>
     mset (take N (Sort_loop xs i)) = mset (take N xs)"
proof (induction xs i rule: Sort_loop.induct)
  case (1 xs i)
  show ?case
  proof (cases "0 < i")
    case False
    then have e: "Sort_loop xs i = xs" unfolding Sort_loop.simps[of xs i] by simp
    have "\<forall>a b. a \<le> b \<and> b < N \<longrightarrow> xs ! a \<le> xs ! b"
    proof (intro allI impI)
      fix a b assume ab: "a \<le> b \<and> b < N"
      show "xs ! a \<le> xs ! b"
      proof (cases "a = b")
        case True then show ?thesis by simp
      next
        case ne: False
        show ?thesis
        proof (cases "a = 0")
          case True
          with ne ab False 1(2) show ?thesis unfolding sort_inv_def by simp
        next
          case False
          with ab \<open>\<not> 0 < i\<close> 1(2) show ?thesis unfolding sort_inv_def by simp
        qed
      qed
    qed
    with e show ?thesis by simp
  next
    case True
    let ?zs = "HeapifyDown (swap_elems xs 0 i) i 0"
    have e: "Sort_loop xs i = Sort_loop ?zs (i - 1)"
      using True unfolding Sort_loop.simps[of xs i] by (simp add: Sort_sift_eq)
    have inv': "sort_inv ?zs N (i - 1)"
      using 1(2) True 1(3) 1(4) by (rule sort_inv_step)
    have "(\<forall>a b. a \<le> b \<and> b < N \<longrightarrow> Sort_loop ?zs (i - 1) ! a \<le> Sort_loop ?zs (i - 1) ! b) \<and>
     length (Sort_loop ?zs (i - 1)) = length ?zs \<and>
     mset (take N (Sort_loop ?zs (i - 1))) = mset (take N ?zs)"
      using 1(1)[OF True] inv' 1(3) 1(4) True by (simp add: Sort_sift_eq)
    moreover have "mset (take N ?zs) = mset (take N xs)"
    proof -
      have "take N ?zs = take i ?zs @ take (N - i) (drop i ?zs)"
        using 1(3) by (metis le_add_diff_inverse less_imp_le_nat take_add)
      then have "mset (take N ?zs) = mset (take i (swap_elems xs 0 i)) + mset (take (N - i) (drop i (swap_elems xs 0 i)))"
        using 1(3,4) by (simp add: take_HeapifyDown drop_HeapifyDown)
      also have "\<dots> = mset (take i (swap_elems xs 0 i) @ take (N - i) (drop i (swap_elems xs 0 i)))"
        by simp
      also have "take i (swap_elems xs 0 i) @ take (N - i) (drop i (swap_elems xs 0 i)) = take N (swap_elems xs 0 i)"
        using 1(3) by (metis le_add_diff_inverse less_imp_le_nat take_add)
      also have "mset (take N (swap_elems xs 0 i)) = mset (take N xs)"
        using 1(3,4) True by (simp add: take_swap_elems mset_swap_elems)
      finally show ?thesis .
    qed
    ultimately show ?thesis using e by simp
  qed
qed

lemma Sort_props:
  assumes le: "size_m h \<le> length (Elements h)" and big: "1 < size_m h"
  shows "size_m (Sort h) = size_m h"
    and "length (Elements (Sort h)) = length (Elements h)"
    and "mset (live (Sort h)) = mset (live h)"
    and "\<forall>a b. a \<le> b \<and> b < size_m h \<longrightarrow> Elements (Sort h) ! a \<le> Elements (Sort h) ! b"
proof -
  let ?N = "size_m h"
  let ?h1 = "Heapify h"
  let ?xs = "Elements ?h1"
  have h1: "heap_from ?xs ?N 0" "size_m ?h1 = ?N" "length ?xs = length (Elements h)"
    "mset (take ?N ?xs) = mset (live h)"
    using Heapify_props[OF le] by (simp_all add: IsHeap_iff live_def)
  have "Suc (?N - 1) = ?N" using big by simp
  then have inv: "sort_inv ?xs ?N (?N - 1)"
    using h1(1) by (auto simp: sort_inv_def)
  have S: "Sort h = ?h1\<lparr>Elements := Sort_loop ?xs (?N - 1)\<rparr>"
    using big h1(2) by (simp add: Sort_def Let_def)
  have "?N - 1 < ?N" "?N \<le> length ?xs" using big le h1(3) by auto
  from Sort_loop_props[OF inv this]
  have P: "\<forall>a b. a \<le> b \<and> b < ?N \<longrightarrow> Sort_loop ?xs (?N - 1) ! a \<le> Sort_loop ?xs (?N - 1) ! b"
    "length (Sort_loop ?xs (?N - 1)) = length ?xs"
    "mset (take ?N (Sort_loop ?xs (?N - 1))) = mset (take ?N ?xs)"
    by blast+
  show "size_m (Sort h) = size_m h" using S h1(2) by simp
  show "length (Elements (Sort h)) = length (Elements h)" using S P(2) h1(3) by simp
  show "mset (live (Sort h)) = mset (live h)" using S P(3) h1(2,4) by (simp add: live_def)
  show "\<forall>a b. a \<le> b \<and> b < size_m h \<longrightarrow> Elements (Sort h) ! a \<le> Elements (Sort h) ! b"
    using S P(1) by simp
qed

lemma sorted_take_nth:
  assumes "n \<le> length xs" "\<forall>a b. a \<le> b \<and> b < n \<longrightarrow> xs ! a \<le> xs ! b"
  shows "sorted (take n xs)"
  unfolding sorted_iff_nth_mono using assms by simp

lemma Sort_small:
  assumes "\<not> 1 < size_m h"
  shows "Sort h = h" "sorted (live h)" "IsHeap h"
proof -
  show "Sort h = h" using assms by (simp add: Sort_def)
  have "length (live h) \<le> 1" using assms by (simp add: live_def)
  then show "sorted (live h)" by (simp add: sorted01)
  have "size_m h div 2 = 0" using assms by simp
  with heap_from_leaves[of "Elements h" "size_m h"] show "IsHeap h"
    by (simp add: IsHeap_iff)
qed

lemma Sort_sorted_live:
  assumes "size_m h \<le> length (Elements h)" "1 < size_m h"
  shows "sorted (live (Sort h))"
proof -
  note P = Sort_props[OF assms]
  have NL: "size_m h \<le> length (Elements (Sort h))" using assms(1) P(2) by simp
  from sorted_take_nth[OF NL P(4)] P(1) show ?thesis by (simp add: live_def)
qed

lemma set_take_conv_nth:
  assumes "n \<le> length xs"
  shows "x \<in> set (take n xs) \<longleftrightarrow> (\<exists>j<n. x = xs ! j)"
proof
  assume "x \<in> set (take n xs)"
  then obtain j where "j < length (take n xs)" "take n xs ! j = x"
    unfolding in_set_conv_nth by blast
  with assms have "j < n" "x = xs ! j" by simp_all
  then show "\<exists>j<n. x = xs ! j" by blast
next
  assume "\<exists>j<n. x = xs ! j"
  then obtain j where j: "j < n" "x = xs ! j" by blast
  with assms have "j < length (take n xs)" "take n xs ! j = x" by simp_all
  then show "x \<in> set (take n xs)" unfolding in_set_conv_nth by blast
qed

lemma Sort_IsHeap_iff:
  assumes "size_m h \<le> length (Elements h)" "1 < size_m h"
  shows "IsHeap (Sort h) \<longleftrightarrow> (\<forall>x \<in> set (live h). \<forall>y \<in> set (live h). x = y)"
proof -
  note P = Sort_props[OF assms]
  define zs where "zs = Elements (Sort h)"
  define N where "N = size_m h"
  have NL: "N \<le> length zs" using assms(1) P(2) by (simp add: zs_def N_def)
  have srt: "\<And>a b. a \<le> b \<Longrightarrow> b < N \<Longrightarrow> zs ! a \<le> zs ! b"
    using P(4) by (simp add: zs_def N_def)
  have "set (live (Sort h)) = set (live h)"
    using P(3) by (rule mset_eq_setD)
  then have sets: "set (live h) = set (take N zs)"
    using P(1) by (simp add: live_def zs_def N_def)
  have mem: "\<And>x. x \<in> set (live h) \<longleftrightarrow> (\<exists>j<N. x = zs ! j)"
    unfolding sets using NL by (rule set_take_conv_nth)
  have hp_iff: "IsHeap (Sort h) \<longleftrightarrow> heap_from zs N 0"
    using P(1) by (simp add: IsHeap_iff zs_def N_def)
  have "heap_from zs N 0 \<longleftrightarrow> (\<forall>x \<in> set (live h). \<forall>y \<in> set (live h). x = y)"
  proof
    assume hp: "heap_from zs N 0"
    have z: "zs ! j = zs ! 0" if j: "j < N" for j
    proof -
      have "zs ! j \<le> zs ! 0" using hp j by (rule heap_root_max)
      moreover have "zs ! 0 \<le> zs ! j" using srt[of 0 j] j by simp
      ultimately show ?thesis by (rule antisym)
    qed
    show "\<forall>x \<in> set (live h). \<forall>y \<in> set (live h). x = y"
    proof (intro ballI)
      fix x y assume "x \<in> set (live h)" "y \<in> set (live h)"
      then obtain a b where ab: "a < N" "x = zs ! a" "b < N" "y = zs ! b"
        using mem by blast
      have "zs ! a = zs ! b" using z[OF ab(1)] z[OF ab(3)] by (rule trans[OF _ sym])
      with ab(2,4) show "x = y" by simp
    qed
  next
    assume eq: "\<forall>x \<in> set (live h). \<forall>y \<in> set (live h). x = y"
    show "heap_from zs N 0"
      unfolding heap_from_def
    proof (intro allI impI)
      fix j assume j: "0 < j \<and> j < N \<and> 0 \<le> GetParent j"
      then have p: "GetParent j < N" using parent_less[of j] by simp
      have "zs ! j \<in> set (live h)" using mem j by blast
      moreover have "zs ! GetParent j \<in> set (live h)" using mem p by blast
      ultimately have "zs ! j = zs ! GetParent j" using eq by blast
      then show "zs ! j \<le> zs ! GetParent j" by simp
    qed
  qed
  with hp_iff show ?thesis by simp
qed

text \<open>
  C6, as stated, fails for a heap of two equal elements: the size is above \<open>1\<close> and
  \<^verbatim>\<open>IsHeap()\<close> is still true after \<^verbatim>\<open>Sort()\<close>.
\<close>

theorem Sort_keeps_heap_of_equal_elements:
  "1 < size_m (\<lparr>Elements = [5, 5], size_m = 2\<rparr> :: int HeapVec) \<and>
   IsHeap (Sort (\<lparr>Elements = [5, 5], size_m = 2\<rparr> :: int HeapVec))"
  by code_simp

text \<open>
  C6, amended. Whenever the live elements are inside the array, after \<^verbatim>\<open>Sort()\<close> the
  first \<open>size\<close> elements are in non-decreasing order (and are a permutation of the
  former ones, the size being unchanged); for \<open>size \<le> 1\<close>, \<^verbatim>\<open>Sort()\<close> is a no-op and
  \<^verbatim>\<open>IsHeap()\<close> is true; for \<open>size > 1\<close>, \<^verbatim>\<open>IsHeap()\<close> is false after \<^verbatim>\<open>Sort()\<close> unless
  all live elements are equal, in which case it is true.
\<close>

theorem Sort_sorts:
  assumes "size_m h \<le> length (Elements h)"
  shows "sorted (live (Sort h)) \<and>
    mset (live (Sort h)) = mset (live h) \<and>
    size_m (Sort h) = size_m h \<and>
    (size_m h \<le> 1 \<longrightarrow> Sort h = h \<and> IsHeap (Sort h)) \<and>
    (1 < size_m h \<longrightarrow>
       (IsHeap (Sort h) \<longleftrightarrow> (\<forall>x \<in> set (live h). \<forall>y \<in> set (live h). x = y)))"
proof (cases "1 < size_m h")
  case False
  note S = Sort_small[OF False]
  have 1: "sorted (live (Sort h))" using S(1,2) by simp
  have 2: "mset (live (Sort h)) = mset (live h)" using S(1) by simp
  have 3: "size_m (Sort h) = size_m h" using S(1) by simp
  have 4: "Sort h = h \<and> IsHeap (Sort h)" using S(1,3) by simp
  from 1 2 3 4 False show ?thesis by blast
next
  case True
  note P = Sort_props[OF assms True]
  have 1: "sorted (live (Sort h))" using assms True by (rule Sort_sorted_live)
  have 5: "IsHeap (Sort h) \<longleftrightarrow> (\<forall>x \<in> set (live h). \<forall>y \<in> set (live h). x = y)"
    using assms True by (rule Sort_IsHeap_iff)
  have "\<not> size_m h \<le> 1" using True by simp
  with 1 P(1,3) 5 show ?thesis by blast
qed

theorem Sort_sorts_witness:
  "size_m (\<lparr>Elements = [10, 5, 15, 2, 8, 20, 3], size_m = 7\<rparr> :: int HeapVec)
     \<le> length (Elements (\<lparr>Elements = [10, 5, 15, 2, 8, 20, 3], size_m = 7\<rparr> :: int HeapVec)) \<and>
   sorted (live (Sort (\<lparr>Elements = [10, 5, 15, 2, 8, 20, 3], size_m = 7\<rparr> :: int HeapVec))) \<and>
   \<not> IsHeap (Sort (\<lparr>Elements = [10, 5, 15, 2, 8, 20, 3], size_m = 7\<rparr> :: int HeapVec))"
proof -
  let ?h = "\<lparr>Elements = [10, 5, 15, 2, 8, 20, 3], size_m = 7\<rparr> :: int HeapVec"
  have h: "size_m ?h \<le> length (Elements ?h)" by simp
  have big: "1 < size_m ?h" by simp
  have ne: "\<not> (\<forall>x \<in> set (live ?h). \<forall>y \<in> set (live ?h). x = y)"
    by (simp add: live_def)
  from Sort_sorts[OF h] big ne h show ?thesis by blast
qed

section \<open>Structural equality\<close>

text \<open>
  C10. Two priority queues of equal size whose live elements agree at every index are
  equal under \<^verbatim>\<open>operator==\<close>, and not unequal under \<^verbatim>\<open>operator!=\<close>, whatever their
  capacities \<open>c\<close> and \<open>d\<close> are: the capacity is not observable through the comparison.
\<close>

theorem operator_eq_ignores_capacity:
  "size_m p = size_m q \<Longrightarrow> (\<forall>i < size_m p. Elements p ! i = Elements q ! i) \<Longrightarrow>
   operator_eq (p\<lparr>capacity := c\<rparr>) (q\<lparr>capacity := d\<rparr>) \<and>
   \<not> operator_neq (p\<lparr>capacity := c\<rparr>) (q\<lparr>capacity := d\<rparr>)"
  by (simp add: operator_neq_def operator_eq_def Vector_eq_def eq_loop_iff)

theorem operator_eq_ignores_capacity_witness:
  "operator_eq (\<lparr>Elements = [3, 1, 2], size_m = 3, capacity = 3\<rparr> :: int PQHeap)
               \<lparr>Elements = [3, 1, 2, 0], size_m = 3, capacity = 4\<rparr> \<and>
   \<not> operator_neq (\<lparr>Elements = [3, 1, 2], size_m = 3, capacity = 3\<rparr> :: int PQHeap)
               \<lparr>Elements = [3, 1, 2, 0], size_m = 3, capacity = 4\<rparr>"
proof -
  let ?p = "\<lparr>Elements = [3, 1, 2], size_m = 3, capacity = 0\<rparr> :: int PQHeap"
  let ?q = "\<lparr>Elements = [3, 1, 2, 0], size_m = 3, capacity = 0\<rparr> :: int PQHeap"
  have h1: "size_m ?p = size_m ?q" by simp
  have h2: "\<forall>i < size_m ?p. Elements ?p ! i = Elements ?q ! i"
    by (simp add: less_Suc_eq numeral_3_eq_3)
  show ?thesis
    using operator_eq_ignores_capacity[OF h1 h2, of 3 4] by simp
qed

section \<open>Capacity policy\<close>

lemma grow_loop_total:
  "0 < c \<Longrightarrow> m \<le> 2 ^ 63 \<Longrightarrow>
   \<exists>k. grow_loop c m = Some (c * 2 ^ k) \<and> m \<le> c * 2 ^ k \<and> (\<forall>j<k. c * 2 ^ j < m)"
proof (induction "m - c" arbitrary: c rule: less_induct)
  case less
  show ?case
  proof (cases "c < m")
    case False
    then have "grow_loop c m = Some c" by (subst grow_loop.simps) simp
    with False show ?thesis by (intro exI[of _ 0]) simp
  next
    case True
    have "c < 2 ^ 63" using True less.prems(2) by (rule less_le_trans)
    then have "c * 2 < 2 ^ 63 * 2" by simp
    then have nowrap: "(c * 2) mod 2 ^ 64 = c * 2" by simp
    have "m - c * 2 < m - c" using True less.prems by simp
    moreover have "0 < c * 2" using less.prems by simp
    ultimately obtain k where k: "grow_loop (c * 2) m = Some (c * 2 * 2 ^ k)"
      "m \<le> c * 2 * 2 ^ k" "\<forall>j<k. c * 2 * 2 ^ j < m"
      using less.hyps[of "c * 2"] less.prems(2) by blast
    have "grow_loop c m = grow_loop ((c * 2) mod 2 ^ 64) m"
      using True by (subst grow_loop.simps) simp
    with k(1) nowrap have 1: "grow_loop c m = Some (c * 2 ^ Suc k)" by (simp add: mult.assoc)
    have 2: "m \<le> c * 2 ^ Suc k" using k(2) by (simp add: mult.assoc)
    have 3: "\<forall>j<Suc k. c * 2 ^ j < m"
    proof (intro allI impI)
      fix j assume "j < Suc k"
      show "c * 2 ^ j < m"
      proof (cases j)
        case 0
        with True show ?thesis by simp
      next
        case (Suc j')
        with \<open>j < Suc k\<close> k(3) have "c * 2 * 2 ^ j' < m" by simp
        with Suc show ?thesis by (simp add: mult.assoc)
      qed
    qed
    from 1 2 3 show ?thesis by blast
  qed
qed

text \<open>
  C7. In a state whose live elements are inside the array and, when the array has to grow,
  fit the requested capacity (every caller requests \<open>size + 1\<close>), and for a requested
  capacity \<open>min \<le> 2 ^ 63\<close> (beyond it the doubling of the 64-bit \<^verbatim>\<open>ulong\<close> wraps around):
  \<^verbatim>\<open>EnsureCapacity(min)\<close> changes nothing when \<open>capacity \<ge> min\<close>; otherwise it returns,
  the new capacity is the first value \<open>max capacity 1 * 2 ^ k\<close> that is at least \<open>min\<close>
  (every earlier value of the doubling sequence is below \<open>min\<close>), the new array has that
  many slots and the live elements are the same, in the same order.
  \<^verbatim>\<open>ShrinkCapacity()\<close> changes nothing unless \<open>capacity > 4\<close> and \<open>size \<le> capacity div 4\<close>;
  otherwise the new capacity is \<open>max (capacity div 2) size\<close>, the new array has that many
  slots and the live elements are the same, in the same order.
\<close>

theorem capacity_policy:
  assumes "size_m q \<le> length (Elements q)"
    and "size_m q \<le> max (capacity q) minCapacity"
    and "minCapacity \<le> 2 ^ 63"
  shows "(minCapacity \<le> capacity q \<longrightarrow> EnsureCapacity q minCapacity = Some (Return () q)) \<and>
    (capacity q < minCapacity \<longrightarrow>
       (\<exists>k q'. EnsureCapacity q minCapacity = Some (Return () q') \<and>
          capacity q' = max (capacity q) 1 * 2 ^ k \<and>
          minCapacity \<le> capacity q' \<and>
          (\<forall>j<k. max (capacity q) 1 * 2 ^ j < minCapacity) \<and>
          length (Elements q') = capacity q' \<and>
          size_m q' = size_m q \<and> live q' = live q)) \<and>
    (\<not> (capacity q > 4 \<and> size_m q \<le> capacity q div 4) \<longrightarrow> ShrinkCapacity q = q) \<and>
    (capacity q > 4 \<and> size_m q \<le> capacity q div 4 \<longrightarrow>
       capacity (ShrinkCapacity q) = max (capacity q div 2) (size_m q) \<and>
       length (Elements (ShrinkCapacity q)) = capacity (ShrinkCapacity q) \<and>
       size_m (ShrinkCapacity q) = size_m q \<and> live (ShrinkCapacity q) = live q)"
proof (intro conjI impI)
  assume "minCapacity \<le> capacity q"
  then show "EnsureCapacity q minCapacity = Some (Return () q)"
    by (simp add: EnsureCapacity_def)
next
  assume lt: "capacity q < minCapacity"
  define c where "c = (if capacity q = 0 then 1 else capacity q)"
  have cpos: "0 < c" by (simp add: c_def)
  have c: "c = max (capacity q) 1" by (auto simp: c_def)
  from grow_loop_total[OF cpos assms(3)]
  obtain k where k: "grow_loop c minCapacity = Some (c * 2 ^ k)"
      "minCapacity \<le> c * 2 ^ k" "\<forall>j<k. c * 2 ^ j < minCapacity"
    by blast
  let ?n = "c * 2 ^ k"
  let ?q' = "q\<lparr>Elements := copy_loop (Elements q) (replicate ?n 0) (size_m q) 0, capacity := ?n\<rparr>"
  have sz: "size_m q \<le> ?n" using assms(2) lt k(2) by simp
  then have e: "EnsureCapacity q minCapacity = Some (Return () ?q')"
    using lt k(1) unfolding c_def by (simp add: EnsureCapacity_def)
  have "live ?q' = live q"
    using assms(1) sz by (simp add: live_def take_copy_loop)
  with e k(2,3) c
  show "\<exists>k q'. EnsureCapacity q minCapacity = Some (Return () q') \<and>
          capacity q' = max (capacity q) 1 * 2 ^ k \<and>
          minCapacity \<le> capacity q' \<and>
          (\<forall>j<k. max (capacity q) 1 * 2 ^ j < minCapacity) \<and>
          length (Elements q') = capacity q' \<and>
          size_m q' = size_m q \<and> live q' = live q"
    by (intro exI[of _ k] exI[of _ ?q']) simp
next
  assume "\<not> (capacity q > 4 \<and> size_m q \<le> capacity q div 4)"
  then show "ShrinkCapacity q = q" by (auto simp: ShrinkCapacity_def)
next
  assume s: "capacity q > 4 \<and> size_m q \<le> capacity q div 4"
  then show "capacity (ShrinkCapacity q) = max (capacity q div 2) (size_m q)"
    by (simp add: ShrinkCapacity_def Let_def max_def)
  from s show "length (Elements (ShrinkCapacity q)) = capacity (ShrinkCapacity q)"
    by (simp add: ShrinkCapacity_def Let_def)
  from s show "size_m (ShrinkCapacity q) = size_m q"
    by (simp add: ShrinkCapacity_def Let_def)
  from s assms(1) show "live (ShrinkCapacity q) = live q"
    by (simp add: ShrinkCapacity_def Let_def live_def take_copy_loop)
qed

theorem capacity_policy_witness:
  "size_m (\<lparr>Elements = [9, 1, 0, 0, 0, 0, 0, 0], size_m = 2, capacity = 8\<rparr> :: int PQHeap)
     \<le> length (Elements (\<lparr>Elements = [9, 1, 0, 0, 0, 0, 0, 0], size_m = 2, capacity = 8\<rparr> :: int PQHeap)) \<and>
   (9::nat) \<le> 2 ^ 63 \<and>
   (\<exists>q'. EnsureCapacity (\<lparr>Elements = [9, 1, 0, 0, 0, 0, 0, 0], size_m = 2, capacity = 8\<rparr> :: int PQHeap) 9
           = Some (Return () q') \<and> capacity q' = 16 \<and> live q' = [9, 1]) \<and>
   capacity (ShrinkCapacity (\<lparr>Elements = [9, 1, 0, 0, 0, 0, 0, 0], size_m = 2, capacity = 8\<rparr> :: int PQHeap)) = 4 \<and>
   live (ShrinkCapacity (\<lparr>Elements = [9, 1, 0, 0, 0, 0, 0, 0], size_m = 2, capacity = 8\<rparr> :: int PQHeap)) = [9, 1]"
proof -
  let ?q = "\<lparr>Elements = [9, 1, 0, 0, 0, 0, 0, 0], size_m = 2, capacity = 8\<rparr> :: int PQHeap"
  have h1: "size_m ?q \<le> length (Elements ?q)" by simp
  have h2: "size_m ?q \<le> max (capacity ?q) 9" by simp
  have h3: "(9::nat) \<le> 2 ^ 63" by simp
  from capacity_policy[OF h1 h2 h3]
  obtain k q' where q': "EnsureCapacity ?q 9 = Some (Return () q')"
      "capacity q' = max (capacity ?q) 1 * 2 ^ k" "9 \<le> capacity q'"
      "\<forall>j<k. max (capacity ?q) 1 * 2 ^ j < 9" "live q' = live ?q"
    and s: "capacity (ShrinkCapacity ?q) = max (capacity ?q div 2) (size_m ?q)"
      "live (ShrinkCapacity ?q) = live ?q"
    by auto
  have "k = 1"
  proof (rule ccontr)
    assume "k \<noteq> 1"
    then have "k = 0 \<or> 1 < k" by auto
    with q'(2,3,4) show False by auto
  qed
  with q' s h1 h3 show ?thesis by (simp add: live_def)
qed

section \<open>Failing operations\<close>

text \<open>
  C8. \<^verbatim>\<open>Tip\<close>, \<^verbatim>\<open>RemoveTip\<close> and \<^verbatim>\<open>TipNRemove\<close> throw exactly when \<open>size = 0\<close>; the
  value-based \<^verbatim>\<open>Change\<close> throws exactly when no live element equals \<open>oldValue\<close>; the
  index-based \<^verbatim>\<open>Change\<close> throws exactly when \<open>idx \<ge> size\<close>. What is thrown is
  \<open>EmptyCollection\<close>, \<open>NotFound\<close> and \<open>IndexOutOfRange\<close> respectively, and the state left
  by the throwing call is the state before it (array, size and capacity).
\<close>

theorem failing_operations:
  "((\<exists>e s. Tip q = Throw e s) \<longleftrightarrow> size_m q = 0) \<and>
   ((\<exists>e s. RemoveTip q = Throw e s) \<longleftrightarrow> size_m q = 0) \<and>
   ((\<exists>e s. TipNRemove q = Throw e s) \<longleftrightarrow> size_m q = 0) \<and>
   ((\<exists>e s. Change_value q oldValue newValue = Throw e s) \<longleftrightarrow>
      (\<forall>i<size_m q. Elements q ! i \<noteq> oldValue)) \<and>
   ((\<exists>e s. Change_index q idx newValue = Throw e s) \<longleftrightarrow> idx \<ge> size_m q) \<and>
   (\<forall>e s. Tip q = Throw e s \<longrightarrow> e = EmptyCollection \<and> s = q) \<and>
   (\<forall>e s. RemoveTip q = Throw e s \<longrightarrow> e = EmptyCollection \<and> s = q) \<and>
   (\<forall>e s. TipNRemove q = Throw e s \<longrightarrow> e = EmptyCollection \<and> s = q) \<and>
   (\<forall>e s. Change_value q oldValue newValue = Throw e s \<longrightarrow> e = NotFound \<and> s = q) \<and>
   (\<forall>e s. Change_index q idx newValue = Throw e s \<longrightarrow> e = IndexOutOfRange \<and> s = q)"
proof -
  have f: "find_loop (Elements q) (size_m q) oldValue 0 = size_m q \<longleftrightarrow>
        (\<forall>i<size_m q. Elements q ! i \<noteq> oldValue)"
    by (simp add: find_loop_iff)
  have 1: "(\<exists>e s. Tip q = Throw e s) \<longleftrightarrow> size_m q = 0"
    by (simp add: Tip_def)
  have 2: "(\<exists>e s. RemoveTip q = Throw e s) \<longleftrightarrow> size_m q = 0"
    by (simp add: RemoveTip_def Let_def)
  have 3: "(\<exists>e s. TipNRemove q = Throw e s) \<longleftrightarrow> size_m q = 0"
    by (simp add: TipNRemove_def Let_def)
  have 4: "(\<exists>e s. Change_value q oldValue newValue = Throw e s) \<longleftrightarrow>
      (\<forall>i<size_m q. Elements q ! i \<noteq> oldValue)"
    unfolding f[symmetric] by (simp add: Change_value_def Let_def)
  have 5: "(\<exists>e s. Change_index q idx newValue = Throw e s) \<longleftrightarrow> idx \<ge> size_m q"
    by (auto simp: Change_index_def Let_def)
  have 6: "\<forall>e s. Tip q = Throw e s \<longrightarrow> e = EmptyCollection \<and> s = q"
    by (auto simp: Tip_def EmptyCollection_def split: if_splits)
  have 7: "\<forall>e s. RemoveTip q = Throw e s \<longrightarrow> e = EmptyCollection \<and> s = q"
    by (auto simp: RemoveTip_def EmptyCollection_def Let_def split: if_splits)
  have 8: "\<forall>e s. TipNRemove q = Throw e s \<longrightarrow> e = EmptyCollection \<and> s = q"
    by (auto simp: TipNRemove_def EmptyCollection_def Let_def split: if_splits)
  have 9: "\<forall>e s. Change_value q oldValue newValue = Throw e s \<longrightarrow> e = NotFound \<and> s = q"
    by (auto simp: Change_value_def NotFound_def Let_def split: if_splits)
  have 10: "\<forall>e s. Change_index q idx newValue = Throw e s \<longrightarrow> e = IndexOutOfRange \<and> s = q"
    by (auto simp: Change_index_def IndexOutOfRange_def Let_def split: if_splits)
  from 1 2 3 4 5 6 7 8 9 10 show ?thesis by blast
qed


theorem failing_operations_witness:
  "Tip (PQHeap_default :: int PQHeap) = Throw EmptyCollection PQHeap_default \<and>
   RemoveTip (PQHeap_default :: int PQHeap) = Throw EmptyCollection PQHeap_default \<and>
   TipNRemove (PQHeap_default :: int PQHeap) = Throw EmptyCollection PQHeap_default \<and>
   Change_value (\<lparr>Elements = [20, 8, 15], size_m = 3, capacity = 3\<rparr> :: int PQHeap) 999 50
     = Throw NotFound \<lparr>Elements = [20, 8, 15], size_m = 3, capacity = 3\<rparr> \<and>
   Change_index (\<lparr>Elements = [20, 8, 15], size_m = 3, capacity = 3\<rparr> :: int PQHeap) 10 50
     = Throw IndexOutOfRange \<lparr>Elements = [20, 8, 15], size_m = 3, capacity = 3\<rparr>"
proof -
  let ?e = "PQHeap_default :: int PQHeap"
  let ?q = "\<lparr>Elements = [20, 8, 15], size_m = 3, capacity = 3\<rparr> :: int PQHeap"
  have e: "size_m ?e = 0" by (simp add: PQHeap_default_def)
  have a: "\<forall>i<size_m ?q. Elements ?q ! i \<noteq> 999"
    by (simp add: less_Suc_eq numeral_3_eq_3)
  have b: "size_m ?q \<le> 10" by simp
  note E = failing_operations[where q = ?e and oldValue = 0 and newValue = 0 and idx = 0]
  note Q = failing_operations[where q = ?q and oldValue = 999 and newValue = 50 and idx = 10]
  from E e have 1: "Tip ?e = Throw EmptyCollection ?e" by metis
  from E e have 2: "RemoveTip ?e = Throw EmptyCollection ?e" by metis
  from E e have 3: "TipNRemove ?e = Throw EmptyCollection ?e" by metis
  from Q a have 4: "Change_value ?q 999 50 = Throw NotFound ?q" by metis
  from Q b have 5: "Change_index ?q 10 50 = Throw IndexOutOfRange ?q" by metis
  from 1 2 3 4 5 show ?thesis by simp
qed

section \<open>Construction from a number\<close>

text \<open>
  C9. The header documents \<^verbatim>\<open>PQHeap(const ulong)\<close> as creating an empty priority queue
  with pre-allocated space. The queue constructed from the number \<open>3\<close> is not empty: its
  size is \<open>3\<close>, and \<^verbatim>\<open>Tip\<close> returns the value-initialised element instead of throwing
  \<open>EmptyCollection\<close>.
\<close>

theorem PQHeap_ulong_not_empty:
  "size_m (PQHeap_ulong 3 :: int PQHeap) = 3 \<and>
   Tip (PQHeap_ulong 3 :: int PQHeap) = Return 0 (PQHeap_ulong 3) \<and>
   Tip (PQHeap_ulong 3 :: int PQHeap) \<noteq> Throw EmptyCollection (PQHeap_ulong 3)"
  by (simp add: PQHeap_ulong_def Tip_def)

text \<open>
  What the constructor builds, for every \<open>c\<close>: \<open>c\<close> value-initialised live elements, with
  size \<open>c\<close> and capacity \<open>c\<close>, in heap order; the queue is empty only for \<open>c = 0\<close>.
\<close>

theorem PQHeap_ulong_state:
  "size_m (PQHeap_ulong c :: ('a::{linorder,zero}) PQHeap) = c \<and>
   capacity (PQHeap_ulong c :: 'a PQHeap) = c \<and>
   Elements (PQHeap_ulong c :: 'a PQHeap) = replicate c 0 \<and>
   IsHeap (PQHeap_ulong c :: 'a PQHeap) \<and>
   Tip (PQHeap_ulong c :: 'a PQHeap) =
     (if c = 0 then Throw EmptyCollection (PQHeap_ulong c) else Return 0 (PQHeap_ulong c)) \<and>
   ((\<exists>s. RemoveTip (PQHeap_ulong c :: 'a PQHeap) = Throw EmptyCollection s) \<longleftrightarrow> c = 0) \<and>
   ((\<exists>s. TipNRemove (PQHeap_ulong c :: 'a PQHeap) = Throw EmptyCollection s) \<longleftrightarrow> c = 0)"
proof -
  have "heap_from (replicate c (0::'a)) c 0"
    unfolding heap_from_def
  proof (intro allI impI)
    fix j assume j: "0 < j \<and> j < c \<and> 0 \<le> GetParent j"
    then have "GetParent j < c" using parent_less[of j] by simp
    with j show "replicate c (0::'a) ! j \<le> replicate c 0 ! GetParent j" by simp
  qed
  then have "IsHeap (PQHeap_ulong c :: 'a PQHeap)"
    by (simp add: IsHeap_def PQHeap_ulong_def IsHeap_loop_heap_from)
  then show ?thesis
    by (auto simp: PQHeap_ulong_def Tip_def RemoveTip_def TipNRemove_def EmptyCollection_def Let_def)
qed

theorem PQHeap_ulong_state_witness:
  "size_m (PQHeap_ulong 3 :: int PQHeap) = 3 \<and> capacity (PQHeap_ulong 3 :: int PQHeap) = 3 \<and>
   Elements (PQHeap_ulong 3 :: int PQHeap) = [0, 0, 0] \<and>
   Tip (PQHeap_ulong 3 :: int PQHeap) = Return 0 (PQHeap_ulong 3) \<and>
   Tip (PQHeap_ulong 0 :: int PQHeap) = Throw EmptyCollection (PQHeap_ulong 0)"
  using PQHeap_ulong_state[of 3, where ?'a = int] PQHeap_ulong_state[of 0, where ?'a = int]
  by (simp add: numeral_3_eq_3)

section \<open>Move assignment and copy\<close>

text \<open>Move construction leaves its source empty, with size \<open>0\<close> and capacity \<open>0\<close>.\<close>

lemma PQHeap_move_source_empty: "snd (PQHeap_move q) = PQHeap_default"
  by (simp add: PQHeap_move_def PQHeap_default_def)

text \<open>
  C4. Move assignment into a queue that holds one element: the source is left with the
  destination's former array and size (\<open>1\<close>, not \<open>0\<close>) and with capacity \<open>0\<close>.
\<close>

theorem assign_move_source_not_empty:
  "assign_move (PQHeap_container [1::int]) (PQHeap_container [2, 3]) =
     (\<lparr>Elements = [3, 2], size_m = 2, capacity = 2\<rparr>,
      \<lparr>Elements = [1], size_m = 1, capacity = 0\<rparr>)"
  by code_simp

text \<open>
  C5. After the same move assignment the capacity of the source (\<open>0\<close>) is below its
  size (\<open>1\<close>).
\<close>

theorem assign_move_source_capacity_below_size:
  "capacity (snd (assign_move (PQHeap_container [1::int]) (PQHeap_container [2, 3])))
     < size_m (snd (assign_move (PQHeap_container [1::int]) (PQHeap_container [2, 3])))"
  by code_simp

text \<open>The equations that evaluate a call on a concrete queue.\<close>

lemmas eval_simps =
  run_ops.simps apply_op.simps state_after.simps Insert_def Insert_store_def EnsureCapacity_def
  grow_loop.simps copy_loop.simps HeapifyUp.simps HeapifyDown.simps Heapify_loop.simps
  IsHeap_loop.simps IsHeap_def Heapify_def PQHeap_default_def PQHeap_container_def PQHeap_copy_def
  Tip_def pq_valid_def Let_def GetParent_def GetLeftChild_def GetRightChild_def
  HasLeftChild_def HasRightChild_def swap_elems_def

text \<open>
  C3. Three insertions into the empty queue leave size \<open>3\<close> and capacity \<open>4\<close>. The copy
  constructor allocates \<open>size = 3\<close> slots and copies the capacity \<open>4\<close>; the next
  \<^verbatim>\<open>Insert\<close> on the copy does not reallocate and writes at index \<open>3\<close>, outside the array.
\<close>

theorem Insert_after_copy_out_of_bounds:
  "run_ops PQHeap_default [Op_Insert (Object 1), Op_Insert (Object 2), Op_Insert (Object (3::int))] =
     Some [\<lparr>Elements = [1], size_m = 1, capacity = 1\<rparr>,
           \<lparr>Elements = [2, 1], size_m = 2, capacity = 2\<rparr>,
           \<lparr>Elements = [3, 1, 2, 0], size_m = 3, capacity = 4\<rparr>] \<and>
   PQHeap_copy (\<lparr>Elements = [3, 1, 2, 0], size_m = 3, capacity = 4\<rparr> :: int PQHeap) =
     \<lparr>Elements = [3, 1, 2], size_m = 3, capacity = 4\<rparr> \<and>
   Insert (PQHeap_copy (\<lparr>Elements = [3, 1, 2, 0], size_m = 3, capacity = 4\<rparr> :: int PQHeap))
       (Object 4) = Some OutOfBounds"
  by (simp add: eval_simps; code_simp)

section \<open>Priority queue operations on valid heaps\<close>

lemma EnsureCapacity_valid:
  assumes "pq_valid q" "size_m q < 2 ^ 63"
  shows "\<exists>q1. EnsureCapacity q (size_m q + 1) = Some (Return () q1) \<and>
           size_m q1 = size_m q \<and> live q1 = live q \<and>
           size_m q1 < capacity q1 \<and> capacity q1 \<le> length (Elements q1)"
proof (cases "capacity q < size_m q + 1")
  case False
  then have "EnsureCapacity q (size_m q + 1) = Some (Return () q)"
    by (simp add: EnsureCapacity_def)
  with False assms(1) show ?thesis by (intro exI[of _ q]) (simp add: pq_valid_def)
next
  case True
  define c where "c = (if capacity q = 0 then 1 else capacity q)"
  have cpos: "0 < c" by (simp add: c_def)
  have "size_m q + 1 \<le> 2 ^ 63" using assms(2) by simp
  from grow_loop_total[OF cpos this]
  obtain k where k: "grow_loop c (size_m q + 1) = Some (c * 2 ^ k)" "size_m q + 1 \<le> c * 2 ^ k"
    by blast
  let ?n = "c * 2 ^ k"
  let ?q1 = "q\<lparr>Elements := copy_loop (Elements q) (replicate ?n 0) (size_m q) 0, capacity := ?n\<rparr>"
  have sz: "size_m q \<le> ?n" using k(2) by simp
  have e: "EnsureCapacity q (size_m q + 1) = Some (Return () ?q1)"
    using True k(1) sz unfolding c_def by (simp add: EnsureCapacity_def)
  have le: "size_m q \<le> length (Elements q)" using assms(1) by (simp add: pq_valid_def)
  have "live ?q1 = live q" using le sz by (simp add: live_def take_copy_loop)
  with e k(2) show ?thesis by (intro exI[of _ ?q1]) simp
qed

lemma ShrinkCapacity_props:
  assumes "size_m q \<le> length (Elements q)"
  shows "size_m (ShrinkCapacity q) = size_m q" "live (ShrinkCapacity q) = live q"
    "pq_valid q \<Longrightarrow> pq_valid (ShrinkCapacity q)"
proof -
  show "size_m (ShrinkCapacity q) = size_m q" by (simp add: ShrinkCapacity_def Let_def)
  show "live (ShrinkCapacity q) = live q"
    using assms by (simp add: ShrinkCapacity_def Let_def live_def take_copy_loop)
  show "pq_valid q \<Longrightarrow> pq_valid (ShrinkCapacity q)"
    by (simp add: ShrinkCapacity_def Let_def pq_valid_def)
qed

lemma IsHeap_cong_live:
  "live h = live h' \<Longrightarrow> size_m h = size_m h' \<Longrightarrow> IsHeap h = IsHeap h'"
  by (simp add: IsHeap_live)

lemma up_inv_append:
  assumes "heap_from xs n 0" "n < length xs"
  shows "up_inv (xs[n := v]) (Suc n) n"
  unfolding up_inv_def
proof (intro conjI allI impI)
  fix j assume j: "0 < j \<and> j < Suc n \<and> j \<noteq> n"
  then have "j < n" "GetParent j < n" using parent_less[of j] by simp_all
  moreover from assms(1) j \<open>j < n\<close> have "xs ! j \<le> xs ! GetParent j"
    unfolding heap_from_def by simp
  ultimately show "xs[n := v] ! j \<le> xs[n := v] ! GetParent j" by simp
next
  fix c assume "0 < n" and c: "0 < c \<and> c < Suc n \<and> GetParent c = n"
  then have "GetParent c < c" using parent_less[of c] by simp
  with c have False by simp
  then show "xs[n := v] ! c \<le> xs[n := v] ! GetParent n" ..
qed

lemma Insert_valid:
  assumes v: "pq_valid q" and h: "IsHeap q" and b: "size_m q < 2 ^ 63"
  shows "\<exists>q'. Insert q (Object x) = Some (Return () q') \<and> pq_valid q' \<and> IsHeap q' \<and>
           size_m q' = size_m q + 1 \<and> mset (live q') = add_mset x (mset (live q))"
proof -
  from EnsureCapacity_valid[OF v b] obtain q1 where
    q1: "EnsureCapacity q (size_m q + 1) = Some (Return () q1)" "size_m q1 = size_m q"
      "live q1 = live q" "size_m q1 < capacity q1" "capacity q1 \<le> length (Elements q1)"
    by blast
  define n where "n = size_m q1"
  define xs where "xs = Elements q1"
  define ys where "ys = xs[n := x]"
  define zs where "zs = HeapifyUp ys n"
  have nl: "n < length xs" using q1(4,5) by (simp add: n_def xs_def)
  let ?q' = "q1\<lparr>Elements := zs, size_m := Suc n\<rparr>"
  have e: "Insert q (Object x) = Some (Return () ?q')"
    using q1(1) nl by (simp add: Insert_def Insert_store_def Let_def n_def xs_def ys_def zs_def)
  have "IsHeap q1" using h q1(2,3) IsHeap_cong_live[of q1 q] by simp
  then have hp: "heap_from xs n 0" by (simp add: IsHeap_iff n_def xs_def)
  have up: "up_inv ys (Suc n) n" unfolding ys_def using hp nl by (rule up_inv_append)
  have yl: "Suc n \<le> length ys" using nl by (simp add: ys_def)
  have "heap_from zs (Suc n) 0"
    unfolding zs_def using yl _ up by (rule HeapifyUp_heap) simp
  then have 1: "IsHeap ?q'" by (simp add: IsHeap_iff)
  have 2: "pq_valid ?q'" using q1(4,5) by (simp add: pq_valid_def n_def zs_def ys_def xs_def)
  have "mset (take (Suc n) zs) = mset (take (Suc n) ys)"
    unfolding zs_def using yl by (intro take_HeapifyUp) simp_all
  also have "take (Suc n) ys = take n xs @ [x]"
    using nl by (simp add: ys_def take_Suc_conv_app_nth)
  finally have 3: "mset (live ?q') = add_mset x (mset (live q))"
    using q1(3) by (simp add: live_def n_def xs_def)
  from e 1 2 3 q1(2) show ?thesis by (intro exI[of _ ?q']) (simp add: n_def)
qed

lemma mset_remove_root:
  assumes "2 \<le> n" "n \<le> length xs"
  shows "mset (take (n - 1) (xs[0 := xs ! (n - 1)])) = mset (take n xs) - {#xs ! 0#}"
proof -
  obtain m where m: "n = Suc (Suc m)" using assms(1) by (metis Suc_le_D numeral_2_eq_2 Suc_le_mono)
  obtain a as where xs: "xs = a # as" using assms m by (cases xs) auto
  have l: "Suc m \<le> length as" using assms(2) m xs by simp
  have "take n xs = a # take m as @ [as ! m]"
    using l by (simp add: m xs take_Suc_conv_app_nth)
  moreover have "take (n - 1) (xs[0 := xs ! (n - 1)]) = as ! m # take m as"
    by (simp add: m xs)
  ultimately show ?thesis by (simp add: xs)
qed

lemma down_inv_root:
  assumes "heap_from xs (Suc n) 0" "0 < length xs"
  shows "down_inv (xs[0 := v]) n 0 0"
  unfolding down_inv_def
proof (intro conjI allI impI)
  fix j assume j: "0 < j \<and> j < n \<and> 0 \<le> GetParent j \<and> GetParent j \<noteq> 0"
  from assms(1) j have "xs ! j \<le> xs ! GetParent j" unfolding heap_from_def by simp
  with j show "xs[0 := v] ! j \<le> xs[0 := v] ! GetParent j" by simp
next
  fix c assume "(0::nat) < 0 \<and> 0 \<le> GetParent 0"
  then show "xs[0 := v] ! c \<le> xs[0 := v] ! GetParent 0" by simp
qed

lemma live_root_max:
  assumes "IsHeap q" "size_m q \<le> length (Elements q)" "x \<in> set (live q)"
  shows "x \<le> Elements q ! 0"
proof -
  from assms(2,3) obtain j where "j < size_m q" "x = Elements q ! j"
    unfolding live_def by (auto simp: set_take_conv_nth)
  with assms(1) show ?thesis using heap_root_max[of "Elements q" "size_m q" j]
    by (simp add: IsHeap_iff)
qed

lemma TipNRemove_valid:
  assumes v: "pq_valid q" and h: "IsHeap q" and pos: "0 < size_m q"
  shows "\<exists>q'. TipNRemove q = Return (Elements q ! 0) q' \<and> RemoveTip q = Return () q' \<and>
           pq_valid q' \<and> IsHeap q' \<and> size_m q' = size_m q - 1 \<and>
           mset (live q') = mset (live q) - {#Elements q ! 0#}"
proof (cases "size_m q = 1")
  case True
  let ?q0 = "q\<lparr>size_m := 0\<rparr>"
  let ?q' = "ShrinkCapacity ?q0"
  have le: "size_m ?q0 \<le> length (Elements ?q0)" by simp
  have v0: "pq_valid ?q0" using v by (simp add: pq_valid_def)
  note S = ShrinkCapacity_props[OF le]
  have l0: "live ?q' = []" using S(2) by (simp add: live_def)
  have "size_m q \<le> length (Elements q)" using v by (simp add: pq_valid_def)
  with True obtain a as where "Elements q = a # as" by (cases "Elements q") auto
  then have lq: "live q = [Elements q ! 0]" using True by (simp add: live_def)
  have "heap_from (Elements ?q') 0 0" by (simp add: heap_from_def)
  then have hp: "IsHeap ?q'" using S(1) by (simp add: IsHeap_iff)
  have e1: "TipNRemove q = Return (Elements q ! 0) ?q'"
    using True by (simp add: TipNRemove_def Let_def)
  have e2: "RemoveTip q = Return () ?q'"
    using True by (simp add: RemoveTip_def Let_def)
  from e1 e2 S(3)[OF v0] hp S(1) l0 lq True show ?thesis
    by (intro exI[of _ ?q']) simp
next
  case False
  define n where "n = size_m q"
  define xs where "xs = Elements q"
  have n2: "2 \<le> n" using False pos by (simp add: n_def)
  have nl: "n \<le> length xs" using v by (simp add: pq_valid_def n_def xs_def)
  define ys where "ys = xs[0 := xs ! (n - 1)]"
  define zs where "zs = HeapifyDown ys (n - 1) 0"
  let ?q3 = "q\<lparr>size_m := n - 1, Elements := zs\<rparr>"
  let ?q' = "ShrinkCapacity ?q3"
  have e1: "TipNRemove q = Return (Elements q ! 0) ?q'"
    using False pos by (simp add: TipNRemove_def Let_def n_def xs_def ys_def zs_def)
  have e2: "RemoveTip q = Return () ?q'"
    using False pos by (simp add: RemoveTip_def Let_def n_def xs_def ys_def zs_def)
  have le: "size_m ?q3 \<le> length (Elements ?q3)" using nl by (simp add: zs_def ys_def)
  note S = ShrinkCapacity_props[OF le]
  have v3: "pq_valid ?q3" using v by (auto simp: pq_valid_def zs_def ys_def xs_def n_def)
  have "Suc (n - 1) = n" using n2 by simp
  then have "heap_from xs (Suc (n - 1)) 0" using h by (simp add: IsHeap_iff n_def xs_def)
  moreover have "0 < length xs" using n2 nl by linarith
  ultimately have "down_inv ys (n - 1) 0 0" unfolding ys_def by (rule down_inv_root)
  moreover have yl: "n - 1 \<le> length ys" using nl by (simp add: ys_def)
  ultimately have "heap_from zs (n - 1) 0"
    unfolding zs_def by (rule HeapifyDown_heap_from[rotated])
  then have "IsHeap ?q3" by (simp add: IsHeap_iff)
  then have hp: "IsHeap ?q'" using S(1,2) IsHeap_cong_live[of ?q' ?q3] by simp
  have "mset (take (n - 1) zs) = mset (take (n - 1) ys)"
    unfolding zs_def using yl by (rule take_HeapifyDown)
  also have "\<dots> = mset (take n xs) - {#xs ! 0#}"
    unfolding ys_def using n2 nl by (rule mset_remove_root)
  finally have ms: "mset (live ?q') = mset (live q) - {#Elements q ! 0#}"
    using S(2) by (simp add: live_def n_def xs_def)
  have sz: "size_m ?q' = size_m q - 1" using S(1) by (simp add: n_def)
  from e1 e2 S(3)[OF v3] hp sz ms show ?thesis
    by (intro exI[of _ ?q']) simp
qed

lemma change_heap:
  assumes hp: "heap_from xs n 0" and i: "idx < n" and n: "n \<le> length xs"
  shows "heap_from
           (if v > xs ! idx then HeapifyUp (xs[idx := v]) idx
            else if v < xs ! idx then HeapifyDown (xs[idx := v]) n idx
            else xs[idx := v]) n 0"
proof -
  let ?ys = "xs[idx := v]"
  have il: "idx < length xs" using i n by simp
  have old: "\<And>j. 0 < j \<Longrightarrow> j < n \<Longrightarrow> xs ! j \<le> xs ! GetParent j"
    using hp unfolding heap_from_def by simp
  have nth: "\<And>m. ?ys ! m = (if m = idx then v else xs ! m)"
    using il by (simp add: nth_list_update)
  have yl: "n \<le> length ?ys" using n by simp
  show ?thesis
  proof (cases "v > xs ! idx")
    case True
    have "up_inv ?ys n idx"
      unfolding up_inv_def
    proof (intro conjI allI impI)
      fix j assume j: "0 < j \<and> j < n \<and> j \<noteq> idx"
      then have "xs ! j \<le> xs ! GetParent j" using old by simp
      with True j show "?ys ! j \<le> ?ys ! GetParent j"
        by (cases "GetParent j = idx") (auto simp: nth)
    next
      fix c assume pos: "0 < idx" and c: "0 < c \<and> c < n \<and> GetParent c = idx"
      then have "xs ! c \<le> xs ! idx" using old[of c] by simp
      also have "xs ! idx \<le> xs ! GetParent idx" using old[OF pos i] .
      finally have "xs ! c \<le> xs ! GetParent idx" .
      moreover have "c \<noteq> idx" "GetParent idx \<noteq> idx"
        using c parent_less[of c] parent_less[OF pos] by auto
      ultimately show "?ys ! c \<le> ?ys ! GetParent idx" by (simp add: nth)
    qed
    with yl i have "heap_from (HeapifyUp ?ys idx) n 0" by (rule HeapifyUp_heap)
    with True show ?thesis by simp
  next
    case nu: False
    show ?thesis
    proof (cases "v < xs ! idx")
      case True
      have "down_inv ?ys n 0 idx"
        unfolding down_inv_def
      proof (intro conjI allI impI)
        fix j assume j: "0 < j \<and> j < n \<and> 0 \<le> GetParent j \<and> GetParent j \<noteq> idx"
        then have "xs ! j \<le> xs ! GetParent j" using old by simp
        with True j show "?ys ! j \<le> ?ys ! GetParent j"
          by (cases "j = idx") (auto simp: nth)
      next
        fix c assume pos: "0 < idx \<and> 0 \<le> GetParent idx"
          and c: "0 < c \<and> c < n \<and> GetParent c = idx"
        then have "xs ! c \<le> xs ! idx" using old[of c] by simp
        also have "xs ! idx \<le> xs ! GetParent idx" using old[of idx] pos i by simp
        finally have "xs ! c \<le> xs ! GetParent idx" .
        moreover have "c \<noteq> idx" "GetParent idx \<noteq> idx"
          using c parent_less[of c] parent_less[of idx] pos by auto
        ultimately show "?ys ! c \<le> ?ys ! GetParent idx" by (simp add: nth)
      qed
      with yl have "heap_from (HeapifyDown ?ys n idx) n 0"
        by (rule HeapifyDown_heap_from)
      with True nu show ?thesis by simp
    next
      case False
      with nu have "v = xs ! idx" by simp
      then have "?ys = xs" by simp
      with hp nu False show ?thesis by simp
    qed
  qed
qed

lemma Change_index_valid:
  assumes v: "pq_valid q" and h: "IsHeap q" and i: "idx < size_m q"
  shows "\<exists>q'. Change_index q idx x = Return () q' \<and> pq_valid q' \<and> IsHeap q' \<and>
           size_m q' = size_m q"
proof -
  define xs where "xs = Elements q"
  define n where "n = size_m q"
  define zs where "zs = (if x > xs ! idx then HeapifyUp (xs[idx := x]) idx
            else if x < xs ! idx then HeapifyDown (xs[idx := x]) n idx
            else xs[idx := x])"
  have nl: "n \<le> length xs" using v by (simp add: pq_valid_def n_def xs_def)
  have hp: "heap_from xs n 0" using h by (simp add: IsHeap_iff n_def xs_def)
  have i': "idx < n" using i by (simp add: n_def)
  have "heap_from zs n 0" unfolding zs_def using hp i' nl by (rule change_heap)
  then have 1: "IsHeap (q\<lparr>Elements := zs\<rparr>)" by (simp add: IsHeap_iff n_def)
  have "length zs = length xs" by (simp add: zs_def)
  then have 2: "pq_valid (q\<lparr>Elements := zs\<rparr>)" using v by (simp add: pq_valid_def xs_def)
  have e: "Change_index q idx x = Return () (q\<lparr>Elements := zs\<rparr>)"
    using i by (simp add: Change_index_def Let_def zs_def xs_def n_def)
  have 3: "size_m (q\<lparr>Elements := zs\<rparr>) = size_m q" by simp
  from e 1 2 3 show ?thesis by blast
qed

lemma Change_value_valid:
  assumes v: "pq_valid q" and h: "IsHeap q"
  shows "\<exists>q'. state_after (Change_value q old x) = Some q' \<and> pq_valid q' \<and> IsHeap q' \<and>
           size_m q' = size_m q"
proof -
  define idx where "idx = find_loop (Elements q) (size_m q) old 0"
  show ?thesis
  proof (cases "idx = size_m q")
    case True
    then have "Change_value q old x = Throw (length_error ''Value not found'') q"
      by (simp add: Change_value_def Let_def idx_def)
    with v h show ?thesis by simp
  next
    case False
    have "idx \<le> size_m q" using find_loop_bounds[of 0 "size_m q" "Elements q" old]
      by (simp add: idx_def)
    with False have i: "idx < size_m q" by simp
    have "Change_value q old x = Change_index q idx x"
      using False i by (simp add: Change_value_def Change_index_def Let_def idx_def)
    with Change_index_valid[OF v h i, of x] show ?thesis by auto
  qed
qed

lemma Heapify_valid:
  assumes "pq_valid q"
  shows "pq_valid (Heapify q)" "IsHeap (Heapify q)"
proof -
  have le: "size_m q \<le> length (Elements q)" using assms by (simp add: pq_valid_def)
  note H = Heapify_props[OF le]
  have "capacity (Heapify q) = capacity q" by (simp add: Heapify_def)
  with H(2,3) assms show "pq_valid (Heapify q)" by (simp add: pq_valid_def)
  show "IsHeap (Heapify q)" by (rule H(1))
qed

lemma apply_op_valid:
  assumes "pq_valid q" "IsHeap q" and b: "size_m q < 2 ^ 63" and na: "no_alias c"
  shows "\<exists>q'. apply_op q c = Some q' \<and> pq_valid q' \<and> IsHeap q' \<and> size_m q' \<le> size_m q + 1"
proof (cases c)
  case (Op_Insert r)
  with na obtain x where r: "r = Object x" by (cases r) simp_all
  from Insert_valid[OF assms(1,2) b, of x] obtain q' where
    "Insert q (Object x) = Some (Return () q')" "pq_valid q'" "IsHeap q'"
    "size_m q' = size_m q + 1" by blast
  with Op_Insert r show ?thesis by simp
next
  case Op_RemoveTip
  show ?thesis
  proof (cases "size_m q = 0")
    case True
    then have "RemoveTip q = Throw (length_error ''Priority queue is empty'') q"
      by (simp add: RemoveTip_def)
    with Op_RemoveTip assms(1,2) show ?thesis by simp
  next
    case False
    then have "0 < size_m q" by simp
    from TipNRemove_valid[OF assms(1,2) this] obtain q' where
      "RemoveTip q = Return () q'" "pq_valid q'" "IsHeap q'" "size_m q' = size_m q - 1" by blast
    with Op_RemoveTip show ?thesis by simp
  qed
next
  case Op_TipNRemove
  show ?thesis
  proof (cases "size_m q = 0")
    case True
    then have "TipNRemove q = Throw (length_error ''Priority queue is empty'') q"
      by (simp add: TipNRemove_def)
    with Op_TipNRemove assms(1,2) show ?thesis by simp
  next
    case False
    then have "0 < size_m q" by simp
    from TipNRemove_valid[OF assms(1,2) this] obtain q' where
      "TipNRemove q = Return (Elements q ! 0) q'" "pq_valid q'" "IsHeap q'"
      "size_m q' = size_m q - 1" by blast
    with Op_TipNRemove show ?thesis by simp
  qed
next
  case (Op_Change_value old x)
  from Change_value_valid[OF assms(1,2), of old x] obtain q' where
    "state_after (Change_value q old x) = Some q'" "pq_valid q'" "IsHeap q'"
    "size_m q' = size_m q" by blast
  with Op_Change_value show ?thesis by simp
next
  case (Op_Change_index idx x)
  show ?thesis
  proof (cases "idx < size_m q")
    case True
    from Change_index_valid[OF assms(1,2) True, of x] obtain q' where
      "Change_index q idx x = Return () q'" "pq_valid q'" "IsHeap q'" "size_m q' = size_m q"
      by blast
    with Op_Change_index show ?thesis by simp
  next
    case False
    then have "Change_index q idx x = Throw (out_of_range ''Index out of range'') q"
      by (simp add: Change_index_def)
    with Op_Change_index assms(1,2) show ?thesis by simp
  qed
next
  case Op_Heapify
  have "size_m (Heapify q) = size_m q" by (simp add: Heapify_def)
  with Op_Heapify Heapify_valid[OF assms(1)] show ?thesis by simp
qed

section \<open>Invariant preservation\<close>

text \<open>
  From a valid state that is a max-heap, a sequence \<open>cs\<close> of calls of \<^verbatim>\<open>Insert\<close>,
  \<^verbatim>\<open>RemoveTip\<close>, \<^verbatim>\<open>TipNRemove\<close>, \<^verbatim>\<open>Change\<close> (by value or by index) and \<^verbatim>\<open>Heapify\<close> in which
  no \<^verbatim>\<open>Insert\<close> is given a reference into the queue's own array, and which keeps the size
  within \<open>2 ^ 63\<close>, runs to its end (a call that throws leaves the state as it was), and
  \<^verbatim>\<open>IsHeap()\<close> is true in the state after every call.
\<close>

lemma heap_invariant_without_aliasing:
  assumes "pq_valid q" "IsHeap q" "\<forall>c \<in> set cs. no_alias c" "size_m q + length cs \<le> 2 ^ 63"
  shows "\<exists>qs. run_ops q cs = Some qs \<and> length qs = length cs \<and> (\<forall>s \<in> set qs. IsHeap s)"
proof -
  have "\<exists>qs. run_ops q cs = Some qs \<and> length qs = length cs \<and>
          (\<forall>s \<in> set qs. pq_valid s \<and> IsHeap s)"
    using assms
  proof (induction cs arbitrary: q)
    case Nil
    then show ?case by simp
  next
    case (Cons c cs)
    have b: "size_m q < 2 ^ 63" using Cons.prems(4) by simp
    have na: "no_alias c" using Cons.prems(3) by simp
    from apply_op_valid[OF Cons.prems(1,2) b na] obtain q' where
      q': "apply_op q c = Some q'" "pq_valid q'" "IsHeap q'" "size_m q' \<le> size_m q + 1"
      by blast
    have rest: "\<forall>c \<in> set cs. no_alias c" using Cons.prems(3) by simp
    have b': "size_m q' + length cs \<le> 2 ^ 63" using Cons.prems(4) q'(4) by simp
    from Cons.IH[OF q'(2,3) rest b'] obtain qs where
      qs: "run_ops q' cs = Some qs" "length qs = length cs" "\<forall>s \<in> set qs. pq_valid s \<and> IsHeap s"
      by blast
    from q' qs show ?case by simp
  qed
  then show ?thesis by blast
qed

text \<open>
  C1. The queue built from \<open>[1]\<close> is valid, is a max-heap and is full (capacity \<open>1\<close>).
  \<^verbatim>\<open>Insert(Tip())\<close> passes the reference to its slot \<open>0\<close>; \<^verbatim>\<open>EnsureCapacity\<close> reallocates and
  releases the array before \<^verbatim>\<open>Insert\<close> reads the argument: the call has undefined
  behaviour, and there is no state after it in which \<^verbatim>\<open>IsHeap()\<close> could be true.
\<close>

theorem Insert_of_Tip_use_after_free:
  "pq_valid (PQHeap_container [1 :: int]) \<and>
   IsHeap (PQHeap_container [1 :: int]) \<and>
   capacity (PQHeap_container [1 :: int]) = size_m (PQHeap_container [1 :: int]) \<and>
   Insert (PQHeap_container [1 :: int]) (Element 0) = Some UseAfterFree \<and>
   run_ops (PQHeap_container [1 :: int]) [Op_Insert (Element 0)] = None"
  by (simp add: eval_simps; code_simp)

section \<open>Extraction order\<close>

lemma drain_props:
  "pq_valid q \<Longrightarrow> IsHeap q \<Longrightarrow> sorted (rev (drain q)) \<and> mset (drain q) = mset (live q)"
proof (induction q rule: drain.induct)
  case (1 q)
  show ?case
  proof (cases "size_m q = 0")
    case True
    then have "drain q = []" unfolding drain.simps[of q] by simp
    with True show ?thesis by (simp add: live_def)
  next
    case False
    then have pos: "0 < size_m q" by simp
    define x where "x = Elements q ! 0"
    from TipNRemove_valid[OF 1(2) 1(3) pos] obtain q' where
      q': "TipNRemove q = Return x q'" "pq_valid q'" "IsHeap q'"
        "mset (live q') = mset (live q) - {#x#}"
      unfolding x_def by blast
    have d: "drain q = x # drain q'"
      using False q'(1) unfolding drain.simps[of q] by simp
    from 1(1)[OF False q'(1) q'(2) q'(3)]
    have IH: "sorted (rev (drain q'))" "mset (drain q') = mset (live q')" by simp_all
    have le: "size_m q \<le> length (Elements q)" using 1(2) by (simp add: pq_valid_def)
    have xin: "x \<in> set (live q)"
      unfolding live_def x_def using le pos by (auto simp: set_take_conv_nth)
    have "\<And>y. y \<in> set (drain q') \<Longrightarrow> y \<le> x"
    proof -
      fix y assume "y \<in> set (drain q')"
      then have "y \<in># mset (live q) - {#x#}" using IH(2) q'(4) by (metis set_mset_mset)
      then have "y \<in> set (live q)" by (metis in_diffD set_mset_mset)
      then show "y \<le> x" unfolding x_def using 1(3) le by (intro live_root_max)
    qed
    then have 1: "sorted (rev (drain q))"
      using IH(1) d by (simp add: sorted_append)
    have 2: "mset (drain q) = mset (live q)"
      using d IH(2) q'(4) xin by simp
    from 1 2 show ?thesis by simp
  qed
qed

lemma drain_eq:
  assumes "pq_valid q" "IsHeap q"
  shows "drain q = rev (sort (live q))"
proof -
  from drain_props[OF assms] have "sorted (rev (drain q))" "mset (rev (drain q)) = mset (live q)"
    by simp_all
  then have "sort (live q) = rev (drain q)" by (intro properties_for_sort) simp_all
  then show ?thesis by simp
qed

lemma PQHeap_default_valid:
  "pq_valid PQHeap_default" "IsHeap (PQHeap_default :: ('a::linorder) PQHeap)"
  "live PQHeap_default = []"
  by (simp_all add: PQHeap_default_def pq_valid_def IsHeap_iff heap_from_def live_def)

lemma PQHeap_container_valid:
  "pq_valid (PQHeap_container xs)" "IsHeap (PQHeap_container xs)"
  "mset (live (PQHeap_container xs)) = mset xs"
proof -
  let ?v = "\<lparr>Elements = xs, size_m = length xs\<rparr>"
  have le: "size_m ?v \<le> length (Elements ?v)" by simp
  note H = Heapify_props[OF le]
  show "pq_valid (PQHeap_container xs)"
    using H(2,3) by (simp add: PQHeap_container_def Let_def pq_valid_def)
  have "heap_from (Elements (Heapify ?v)) (size_m (Heapify ?v)) 0"
    using H(1) by (simp add: IsHeap_iff)
  then show "IsHeap (PQHeap_container xs)"
    by (simp add: PQHeap_container_def Let_def IsHeap_iff)
  have "live (PQHeap_container xs) = live (Heapify ?v)"
    by (simp add: PQHeap_container_def Let_def live_def)
  with H(4) show "mset (live (PQHeap_container xs)) = mset xs" by (simp add: live_def)
qed

lemma run_Inserts:
  "pq_valid q \<Longrightarrow> IsHeap q \<Longrightarrow> size_m q + length xs \<le> 2 ^ 63 \<Longrightarrow>
   \<exists>qs. run_ops q (map (\<lambda>x. Op_Insert (Object x)) xs) = Some qs \<and> length qs = length xs \<and>
        pq_valid (last (q # qs)) \<and> IsHeap (last (q # qs)) \<and>
        mset (live (last (q # qs))) = mset xs + mset (live q)"
proof (induction xs arbitrary: q)
  case Nil
  then show ?case by simp
next
  case (Cons x xs)
  have b: "size_m q < 2 ^ 63" using Cons.prems(3) by simp
  from Insert_valid[OF Cons.prems(1,2) b, of x] obtain q' where
    q': "Insert q (Object x) = Some (Return () q')" "pq_valid q'" "IsHeap q'"
      "size_m q' = size_m q + 1"
      "mset (live q') = add_mset x (mset (live q))" by blast
  have b': "size_m q' + length xs \<le> 2 ^ 63" using Cons.prems(3) q'(4) by simp
  from Cons.IH[OF q'(2,3) b'] obtain qs where
    qs: "run_ops q' (map (\<lambda>x. Op_Insert (Object x)) xs) = Some qs" "length qs = length xs"
      "pq_valid (last (q' # qs))" "IsHeap (last (q' # qs))"
      "mset (live (last (q' # qs))) = mset xs + mset (live q')" by blast
  have "run_ops q (map (\<lambda>x. Op_Insert (Object x)) (x # xs)) = Some (q' # qs)"
    using q'(1) qs(1) by simp
  moreover have "last (q # q' # qs) = last (q' # qs)" by simp
  ultimately show ?case using qs q'(5)
    by (intro exI[of _ "q' # qs"]) (simp del: last.simps)
qed

text \<open>
  The queue built from the sequence \<open>xs\<close> by the bulk constructor gives back, under repeated
  \<^verbatim>\<open>TipNRemove()\<close> until empty, the elements of \<open>xs\<close> sorted in non-increasing order.
\<close>

lemma extraction_order_container: "drain (PQHeap_container xs) = rev (sort xs)"
proof -
  have "sort (live (PQHeap_container xs)) = sort xs"
    using PQHeap_container_valid(3)[of xs] by (intro properties_for_sort) simp_all
  then show ?thesis
    using drain_eq[OF PQHeap_container_valid(1,2), of xs] by simp
qed

lemma extraction_order_example:
  "drain (PQHeap_container [10, 5, 15, 2, 8, 20, 3 :: int]) = [20, 15, 10, 8, 5, 3, 2]"
proof -
  have "rev (sort [10, 5, 15, 2, 8, 20, 3 :: int]) = [20, 15, 10, 8, 5, 3, 2]" by simp
  with extraction_order_container[of "[10, 5, 15, 2, 8, 20, 3 :: int]"] show ?thesis
    by (rule trans)
qed

text \<open>
  So does the queue built from the empty queue by inserting the elements of \<open>xs\<close> one after
  the other, each passed as a reference to an object outside the queue.
\<close>

lemma extraction_order_inserts:
  assumes "length xs \<le> 2 ^ 63"
  shows "\<exists>qs. run_ops PQHeap_default (map (\<lambda>x. Op_Insert (Object x)) xs) = Some qs \<and>
           length qs = length xs \<and> drain (last (PQHeap_default # qs)) = rev (sort xs)"
proof -
  have b: "size_m (PQHeap_default :: 'a PQHeap) + length xs \<le> 2 ^ 63"
    using assms by (simp add: PQHeap_default_def)
  from run_Inserts[OF PQHeap_default_valid(1,2) b] obtain qs where
    qs: "run_ops PQHeap_default (map (\<lambda>x. Op_Insert (Object x)) xs) = Some qs"
      "length qs = length xs"
      "pq_valid (last (PQHeap_default # qs))" "IsHeap (last (PQHeap_default # qs))"
      "mset (live (last (PQHeap_default # qs))) = mset xs + mset (live (PQHeap_default :: 'a PQHeap))"
    by blast
  have "mset (live (last (PQHeap_default # qs))) = mset xs"
    using qs(5) by (simp add: PQHeap_default_valid(3))
  then have "sort (live (last (PQHeap_default # qs))) = sort xs"
    by (intro properties_for_sort) simp_all
  then have "drain (last (PQHeap_default # qs)) = rev (sort xs)"
    using drain_eq[OF qs(3,4)] by simp
  with qs(1,2) show ?thesis by blast
qed

text \<open>
  C2. The queue built from the empty queue by \<^verbatim>\<open>Insert(5)\<close> is full (size \<open>1\<close>, capacity
  \<open>1\<close>). Building the multiset \<open>{5, 5}\<close> by \<^verbatim>\<open>Insert(Tip())\<close> passes the reference to the
  slot \<open>0\<close>; \<^verbatim>\<open>EnsureCapacity\<close> reallocates and releases the array before \<^verbatim>\<open>Insert\<close> reads
  the argument: the call has undefined behaviour, and no queue holding \<open>{5, 5}\<close> is built
  from which \<^verbatim>\<open>TipNRemove()\<close> could yield \<open>5, 5\<close>.
\<close>

theorem Insert_sequence_use_after_free:
  "run_ops PQHeap_default [Op_Insert (Object (5 :: int))] =
     Some [\<lparr>Elements = [5], size_m = 1, capacity = 1\<rparr>] \<and>
   Tip (\<lparr>Elements = [5], size_m = 1, capacity = 1\<rparr> :: int PQHeap) =
     Return 5 \<lparr>Elements = [5], size_m = 1, capacity = 1\<rparr> \<and>
   Insert (\<lparr>Elements = [5], size_m = 1, capacity = 1\<rparr> :: int PQHeap) (Element 0) =
     Some UseAfterFree \<and>
   run_ops PQHeap_default [Op_Insert (Object (5 :: int)), Op_Insert (Element 0)] = None"
  by (simp add: eval_simps; code_simp)

end
